theory Spec2Isabelle
  imports Main "HOL-Library.Char_ord" "HOL-Library.List_Lexorder"
begin

section \<open>JavaScript strings and JSON values\<close>

text \<open>
  Strings are lists of code units below 256. The white space of \<^verbatim>\<open>String.prototype.trim\<close>
  and of the regular expression class \<^verbatim>\<open>\s\<close> is, in that range, TAB, LF, VT, FF, CR,
  SPACE and NBSP; the white space code units above 255 are not represented.
\<close>

definition isSpace :: "char \<Rightarrow> bool" where
  "isSpace c = (c \<in> set [CHR 0x09, CHR 0x0A, CHR 0x0B, CHR 0x0C, CHR 0x0D, CHR 0x20, CHR 0xA0])"

definition trim :: "string \<Rightarrow> string" where
  "trim s = rev (dropWhile isSpace (rev (dropWhile isSpace s)))"

text \<open>\<^verbatim>\<open>s.split('\n')\<close>: the pieces between the separators, at least one piece.\<close>

fun split_nl :: "string \<Rightarrow> string list" where
  "split_nl [] = [[]]"
| "split_nl (c # cs) =
     (if c = CHR 0x0A then [] # split_nl cs
      else (case split_nl cs of [] \<Rightarrow> [[c]] | t # ts \<Rightarrow> (c # t) # ts))"

text \<open>\<^verbatim>\<open>xs.join(sep)\<close>\<close>

fun join :: "string \<Rightarrow> string list \<Rightarrow> string" where
  "join sep [] = []"
| "join sep [x] = x"
| "join sep (x # y # ys) = x @ sep @ join sep (y # ys)"

fun digit :: "nat \<Rightarrow> char" where
  "digit n = char_of (48 + n)"

fun show_nat :: "nat \<Rightarrow> string" where
  "show_nat n = (if n < 10 then [digit n] else show_nat (n div 10) @ [digit (n mod 10)])"

declare show_nat.simps [simp del]

definition show_int :: "int \<Rightarrow> string" where
  "show_int i = (if i < 0 then CHR ''-'' # show_nat (nat (- i)) else show_nat (nat i))"

text \<open>
  The values \<^verbatim>\<open>JSON.parse\<close> returns and \<^verbatim>\<open>JSON.stringify\<close> prints. A key
  function returns an array of strings and of arrays of strings; the other constructors are
  what a cache file may hold besides. Numbers are the integers.
\<close>

datatype json =
    JNull
  | JBool bool
  | JNum int
  | JStr string
  | JArr "json list"
  | JObj "(string \<times> json) list"

definition hexdigit :: "nat \<Rightarrow> char" where
  "hexdigit n = (if n < 10 then char_of (48 + n) else char_of (87 + n))"

text \<open>\<^verbatim>\<open>JSON.stringify\<close> of one code unit inside a string literal.\<close>

definition quoteChar :: "char \<Rightarrow> string" where
  "quoteChar c =
     (if c = CHR 0x22 then [CHR 0x5C, CHR 0x22]
      else if c = CHR 0x5C then [CHR 0x5C, CHR 0x5C]
      else if c = CHR 0x08 then [CHR 0x5C, CHR ''b'']
      else if c = CHR 0x09 then [CHR 0x5C, CHR ''t'']
      else if c = CHR 0x0A then [CHR 0x5C, CHR ''n'']
      else if c = CHR 0x0C then [CHR 0x5C, CHR ''f'']
      else if c = CHR 0x0D then [CHR 0x5C, CHR ''r'']
      else if (of_char c :: nat) < 32
        then [CHR 0x5C, CHR ''u'', CHR ''0'', CHR ''0'',
              hexdigit (of_char c div 16), hexdigit (of_char c mod 16)]
      else [c])"

definition quote :: "string \<Rightarrow> string" where
  "quote s = [CHR 0x22] @ concat (map quoteChar s) @ [CHR 0x22]"

fun stringify :: "json \<Rightarrow> string" where
  "stringify JNull = ''null''"
| "stringify (JBool b) = (if b then ''true'' else ''false'')"
| "stringify (JNum i) = show_int i"
| "stringify (JStr s) = quote s"
| "stringify (JArr xs) = ''['' @ join '','' (map stringify xs) @ '']''"
| "stringify (JObj kvs) =
     ''{'' @ join '','' (map (\<lambda>kv. quote (fst kv) @ '':'' @ stringify (snd kv)) kvs) @ ''}''"

section \<open>The environment: file system, processes, library functions\<close>

text \<open>
  The engine's errors: the class \<^verbatim>\<open>BuildError\<close> and every other exception.
\<close>

datatype error = BuildError string | OtherError string

text \<open>How a spawned child ends: the \<^verbatim>\<open>exit\<close> event with its code (none after a
  signal), or the \<^verbatim>\<open>error\<close> event with its message.\<close>

datatype proc_result = Exit "int option" | SpawnError string

datatype os = Windows | Macos | Linux

text \<open>
  What the engine uses and does not define is a parameter: the file system and the child
  processes act on a world \<open>'w\<close>; \<^verbatim>\<open>crypto\<close>'s MD5 digest in base 64, \<^verbatim>\<open>path.dirname\<close>,
  \<^verbatim>\<open>path.relative('', p)\<close> and \<^verbatim>\<open>os.platform()\<close> are library values.
\<close>

record 'w env =
  readFile :: "'w \<Rightarrow> string \<Rightarrow> string option"
  access :: "'w \<Rightarrow> string \<Rightarrow> bool"
  mkdir :: "string \<Rightarrow> 'w \<Rightarrow> string option \<times> 'w"
  spawn :: "string list \<Rightarrow> 'w \<Rightarrow> proc_result \<times> 'w"
  md5_base64 :: "string \<Rightarrow> string"
  dirname :: "string \<Rightarrow> string"
  relative :: "string \<Rightarrow> string"
  OS :: os

section \<open>Tasks and the engine state\<close>

record Options =
  objPrefix :: string
  objSuffix :: string
  exeSuffix :: string
  depends :: "string list"
  CPPFlags :: "string list"
  LINKLibs :: "string list"

text \<open>\<^verbatim>\<open>Partial<Options>\<close>: every field may be absent.\<close>

record PartialOptions =
  objPrefix_opt :: "string option"
  objSuffix_opt :: "string option"
  exeSuffix_opt :: "string option"
  depends_opt :: "string list option"
  CPPFlags_opt :: "string list option"
  LINKLibs_opt :: "string list option"

definition DEFAULT_OPTIONS :: "os \<Rightarrow> Options" where
  "DEFAULT_OPTIONS sys =
     \<lparr> objPrefix = ''objs/'',
       objSuffix = (if sys = Windows then ''.obj'' else ''.o''),
       exeSuffix = (if sys = Windows then ''.exe'' else []),
       depends = [], CPPFlags = [], LINKLibs = [] \<rparr>"

definition noOptions :: PartialOptions where
  "noOptions = \<lparr> objPrefix_opt = None, objSuffix_opt = None, exeSuffix_opt = None,
       depends_opt = None, CPPFlags_opt = None, LINKLibs_opt = None \<rparr>"

text \<open>
  The closures \<^verbatim>\<open>run\<close> and \<^verbatim>\<open>keyFn\<close> of the three rule builders, with the variables
  they capture: for \<^verbatim>\<open>RULE\<close> the targets, the prerequisites and the recipe; for \<^verbatim>\<open>CPP\<close>
  the object file, the deps file, the explicit depends and the two commands (object, deps);
  for \<^verbatim>\<open>LINK\<close> the executable, the depends and the link command.
\<close>

datatype runFn =
    RuleRun "string list" "string list" "string list list"
  | CppRun string string "string list" "string list" "string list"
  | LinkRun string "string list" "string list"

datatype keyFn =
    RuleKey "string list" "string list" "string list list"
  | CppKey string string "string list" "string list" "string list"
  | LinkKey string "string list" "string list"

text \<open>A settled \<^verbatim>\<open>Promise<void>\<close>.\<close>

datatype promise = Resolved | Rejected error

record Task =
  run :: runFn
  keyFn :: "keyFn option"
  label :: string
  src :: "string option"
  cachedKey :: "json option"
  pending :: "promise option"
  failed :: bool

text \<open>What the engine does that a claim observes: a call of a task's \<^verbatim>\<open>run\<close>, a call
  of its \<^verbatim>\<open>keyFn\<close>, a spawned command, a line of \<^verbatim>\<open>console.error\<close>.\<close>

datatype event =
    RunInvoked nat
  | KeyInvoked nat
  | Spawned "string list"
  | ConsoleError string

text \<open>
  An object used as a dictionary is looked up through its prototype chain: besides its own
  properties, \<^verbatim>\<open>name in obj\<close> and \<^verbatim>\<open>obj[name]\<close> find the twelve members of
  \<^verbatim>\<open>Object.prototype\<close>: eleven functions, and under \<^verbatim>\<open>__proto__\<close> the prototype
  object itself.
\<close>

definition objectPrototypeNames :: "string list" where
  "objectPrototypeNames =
     [''constructor'', ''__defineGetter__'', ''__defineSetter__'', ''hasOwnProperty'',
      ''__lookupGetter__'', ''__lookupSetter__'', ''isPrototypeOf'', ''propertyIsEnumerable'',
      ''toString'', ''valueOf'', ''__proto__'', ''toLocaleString'']"

text \<open>
  The engine treats what it finds under a target's name as a task, so it may write the
  properties \<^verbatim>\<open>src\<close>, \<^verbatim>\<open>cachedKey\<close> and \<^verbatim>\<open>pending\<close> to one of these members. None
  of them has a \<^verbatim>\<open>run\<close>, a \<^verbatim>\<open>keyFn\<close> or a \<^verbatim>\<open>failed\<close>.
\<close>

record member =
  m_src :: "string option"
  m_cachedKey :: "json option"
  m_pending :: "promise option"

definition newMember :: member where
  "newMember = \<lparr> m_src = None, m_cachedKey = None, m_pending = None \<rparr>"

text \<open>
  The \<^verbatim>\<open>Maek\<close> object and what it acts on. Task objects are shared by the targets they
  make, so they live in a heap (\<open>heap\<close>, a task's address is its index) and the registry
  \<open>tasks\<close> holds the own properties of \<^verbatim>\<open>this.tasks\<close>, a target and the address of its
  task, in insertion order. \<open>members\<close> holds what the engine has written to the members of
  \<^verbatim>\<open>Object.prototype\<close>, by name. \<open>hashCache\<close> holds the own properties of
  \<^verbatim>\<open>this.hashCache\<close>. \<open>cacheFile\<close> holds the properties of the object parsed from
  \<^verbatim>\<open>maek-cache.json\<close>, in the order of \<^verbatim>\<open>Object.keys\<close>, and is \<open>None\<close> when the file
  cannot be read or parsed.
\<close>

record 'w maek =
  options :: Options
  tasks :: "(string \<times> nat) list"
  heap :: "Task list"
  members :: "string \<Rightarrow> member"
  hashCache :: "string \<rightharpoonup> string"
  hashCacheHits :: nat
  world :: 'w
  cacheFile :: "(string \<times> json) list option"
  exitCode :: nat
  trace :: "event list"

definition newMaek :: "'w env \<Rightarrow> 'w \<Rightarrow> 'w maek" where
  "newMaek env w =
     \<lparr> options = DEFAULT_OPTIONS (OS env), tasks = [], heap = [], members = (\<lambda>name. newMember),
       hashCache = Map.empty, hashCacheHits = 0, world = w, cacheFile = None, exitCode = 0,
       trace = [] \<rparr>"

text \<open>\<^verbatim>\<open>target[0] === ':'\<close>\<close>

fun isAbstract :: "string \<Rightarrow> bool" where
  "isAbstract [] = False"
| "isAbstract (c # cs) = (c = CHR '':'')"

text \<open>\<^verbatim>\<open>this.tasks[target] = task\<close>: an existing property keeps its place.\<close>

fun assign :: "(string \<times> 'a) list \<Rightarrow> string \<Rightarrow> 'a \<Rightarrow> (string \<times> 'a) list" where
  "assign [] k v = [(k, v)]"
| "assign ((k', v') # kvs) k v = (if k' = k then (k, v) # kvs else (k', v') # assign kvs k v)"

definition taskOf :: "'w maek \<Rightarrow> string \<Rightarrow> nat option" where
  "taskOf st target = map_of (tasks st) target"

definition setTask :: "nat \<Rightarrow> (Task \<Rightarrow> Task) \<Rightarrow> 'w maek \<Rightarrow> 'w maek" where
  "setTask a f st = st\<lparr>heap := (heap st)[a := f (heap st ! a)]\<rparr>"

definition setMember :: "string \<Rightarrow> (member \<Rightarrow> member) \<Rightarrow> 'w maek \<Rightarrow> 'w maek" where
  "setMember name f st = st\<lparr>members := (members st)(name := f (members st name))\<rparr>"

definition emit :: "event \<Rightarrow> 'w maek \<Rightarrow> 'w maek" where
  "emit e st = st\<lparr>trace := trace st @ [e]\<rparr>"

text \<open>
  \<^verbatim>\<open>this.tasks[target]\<close>: the task registered for the target, or else the member of
  \<^verbatim>\<open>Object.prototype\<close> of that name; \<^verbatim>\<open>target in this.tasks\<close> holds when there is
  either.
\<close>

datatype found = TaskAt nat | Member string

definition lookupTask :: "'w maek \<Rightarrow> string \<Rightarrow> found option" where
  "lookupTask st target =
     (case taskOf st target of
        Some a \<Rightarrow> Some (TaskAt a)
      | None \<Rightarrow> if target \<in> set objectPrototypeNames then Some (Member target) else None)"

text \<open>
  A property a task object does not have is read from \<^verbatim>\<open>Object.prototype\<close>, and so is a
  property one of the eleven functions does not have.
\<close>

definition prototype :: "'w maek \<Rightarrow> member" where
  "prototype st = members st ''__proto__''"

definition taskPending :: "'w maek \<Rightarrow> nat \<Rightarrow> promise option" where
  "taskPending st a =
     (case pending (heap st ! a) of Some p \<Rightarrow> Some p | None \<Rightarrow> m_pending (prototype st))"

definition taskKey :: "'w maek \<Rightarrow> nat \<Rightarrow> json option" where
  "taskKey st a =
     (case cachedKey (heap st ! a) of Some key \<Rightarrow> Some key | None \<Rightarrow> m_cachedKey (prototype st))"

definition memberPending :: "'w maek \<Rightarrow> string \<Rightarrow> promise option" where
  "memberPending st name =
     (case m_pending (members st name) of
        Some p \<Rightarrow> Some p
      | None \<Rightarrow> m_pending (prototype st))"

section \<open>The rule builders\<close>

text \<open>\<^verbatim>\<open>{ ...DEFAULT_OPTIONS, ...this.options, ...localOptions }\<close>; \<open>this.options\<close> has
  every field, so the defaults never show.\<close>

definition combineOptions :: "'w maek \<Rightarrow> PartialOptions \<Rightarrow> Options" where
  "combineOptions st l =
     \<lparr> objPrefix = (case objPrefix_opt l of Some v \<Rightarrow> v | None \<Rightarrow> objPrefix (options st)),
       objSuffix = (case objSuffix_opt l of Some v \<Rightarrow> v | None \<Rightarrow> objSuffix (options st)),
       exeSuffix = (case exeSuffix_opt l of Some v \<Rightarrow> v | None \<Rightarrow> exeSuffix (options st)),
       depends = (case depends_opt l of Some v \<Rightarrow> v | None \<Rightarrow> depends (options st)),
       CPPFlags = (case CPPFlags_opt l of Some v \<Rightarrow> v | None \<Rightarrow> CPPFlags (options st)),
       LINKLibs = (case LINKLibs_opt l of Some v \<Rightarrow> v | None \<Rightarrow> LINKLibs (options st)) \<rparr>"

text \<open>The template \<^verbatim>\<open>`RULE ${targets[0]}`\<close> prints a missing first target as
  \<^verbatim>\<open>undefined\<close>.\<close>

definition ruleLabel :: "string list \<Rightarrow> string" where
  "ruleLabel targets = ''RULE '' @ (case targets of [] \<Rightarrow> ''undefined'' | t # _ \<Rightarrow> t)"

definition newTask :: "runFn \<Rightarrow> keyFn option \<Rightarrow> string \<Rightarrow> Task" where
  "newTask r k l =
     \<lparr> run = r, keyFn = k, label = l, src = None, cachedKey = None, pending = None,
       failed = False \<rparr>"

text \<open>A new task object is allocated at the end of the heap and the registry entry of each
  of its targets is pointed at it.\<close>

definition install :: "Task \<Rightarrow> string list \<Rightarrow> 'w maek \<Rightarrow> 'w maek" where
  "install task targets st =
     st\<lparr> heap := heap st @ [task],
         tasks := fold (\<lambda>target reg. assign reg target (length (heap st))) targets (tasks st) \<rparr>"

definition RULE :: "string list \<Rightarrow> string list \<Rightarrow> string list list \<Rightarrow> 'w maek \<Rightarrow> 'w maek" where
  "RULE targets prerequisites recipe st =
     (let keyFn = (if \<not> list_ex isAbstract targets
                   then Some (RuleKey targets prerequisites recipe) else None)
      in install (newTask (RuleRun targets prerequisites recipe) keyFn (ruleLabel targets))
           targets st)"

text \<open>\<^verbatim>\<open>cppFile.replace(/\.[^.]*$/, '')\<close>: the last dot and what follows it are removed.\<close>

definition stripExt :: "string \<Rightarrow> string" where
  "stripExt s =
     (if CHR ''.'' \<in> set s then rev (tl (dropWhile (\<lambda>c. c \<noteq> CHR ''.'') (rev s))) else s)"

definition CPP_STD :: string where
  "CPP_STD = ''-std=c++2a''"

definition CPP ::
  "'w env \<Rightarrow> string \<Rightarrow> string option \<Rightarrow> PartialOptions \<Rightarrow> 'w maek \<Rightarrow> error + (string \<times> 'w maek)"
where
  "CPP env cppFile objFileBase_arg localOptions st =
     (let opts = combineOptions st localOptions;
          objFileBase = (case objFileBase_arg of
                           Some b \<Rightarrow> b
                         | None \<Rightarrow> relative env (objPrefix opts @ stripExt cppFile));
          objFile = objFileBase @ objSuffix opts;
          depsFile = objFileBase @ ''.d'';
          deps = cppFile # depends opts;
          mk = (\<lambda>compiler.
             let cc = [compiler, CPP_STD, ''-Wall'', ''-Werror'', ''-g''] @ CPPFlags opts;
                 depsCommand = cc @ [''-E'', ''-M'', ''-MG'', ''-MT'', ''x '', ''-MF'', depsFile, cppFile];
                 objCommand = cc @ [''-c'', ''-o'', objFile, cppFile]
             in Inr (objFile,
                  install (newTask (CppRun objFile depsFile deps objCommand depsCommand)
                             (Some (CppKey objFile depsFile deps objCommand depsCommand))
                             (''CPP '' @ objFile))
                    [objFile] st))
      in case OS env of
           Linux \<Rightarrow> mk ''g++''
         | Macos \<Rightarrow> mk ''clang++''
         | Windows \<Rightarrow> Inl (OtherError ''TODO: write CPP rule for windows.''))"

definition LINK ::
  "'w env \<Rightarrow> string list \<Rightarrow> string \<Rightarrow> PartialOptions \<Rightarrow> 'w maek \<Rightarrow> error + (string \<times> 'w maek)"
where
  "LINK env objFiles exeFileBase localOptions st =
     (let opts = combineOptions st localOptions;
          exeFile = exeFileBase @ exeSuffix opts;
          link = [''g++'', CPP_STD, ''-Wall'', ''-Werror'', ''-g''];
          linkCommand = link @ [''-o'', exeFile] @ objFiles @ LINKLibs opts;
          deps = objFiles @ depends opts
      in case OS env of
           Windows \<Rightarrow> Inl (OtherError ''TODO: write LINK rule for windows.'')
         | _ \<Rightarrow> Inr (exeFile,
                  install (newTask (LinkRun exeFile deps linkCommand)
                             (Some (LinkKey exeFile deps linkCommand)) (''LINK '' @ exeFile))
                    [exeFile] st))"

section \<open>Commands\<close>

text \<open>
  \<^verbatim>\<open>runCommand\<close>. The job pool that defers and bounds the spawn is modelled on its own
  below; here the command runs to its end where it is awaited.
\<close>

definition shellSpecial :: "char \<Rightarrow> bool" where
  "shellSpecial c = (c \<in> set ([CHR 0x20, CHR 0x09, CHR 0x0A, CHR 0x22, CHR 0x27, CHR 0x5C, CHR 0x60]
                               @ ''!$&()*,;<>?[]^{|}~''))"

definition prettyToken :: "string \<Rightarrow> string" where
  "prettyToken token =
     (if list_ex shellSpecial token \<or> take 1 token = ''='' \<or> take 1 token = ''#''
      then [CHR 0x27]
           @ concat (map (\<lambda>c. if c = CHR 0x27 then [CHR 0x27, CHR 0x5C, CHR 0x27, CHR 0x27] else [c]) token)
           @ [CHR 0x27]
      else token)"

definition prettyCommand :: "string list \<Rightarrow> string" where
  "prettyCommand command =
     fold (\<lambda>token acc. (if acc \<noteq> [] then acc @ '' '' else acc) @ prettyToken token) command []"

definition showCode :: "int option \<Rightarrow> string" where
  "showCode code = (case code of None \<Rightarrow> ''null'' | Some c \<Rightarrow> show_int c)"

text \<open>\<^verbatim>\<open>child_process.spawn\<close> throws a \<^verbatim>\<open>TypeError\<close> when the file to run is
  missing or empty; the promise then rejects with it.\<close>

definition runCommand ::
  "'w env \<Rightarrow> string list \<Rightarrow> string \<Rightarrow> 'w maek \<Rightarrow> 'w maek \<times> (error + unit)"
where
  "runCommand env command message st =
     (if take 1 command = [] \<or> take 1 command = [[]]
      then (st, Inl (OtherError ''TypeError: The argument 'file' is invalid''))
      else
        (case spawn env command (world st) of
           (r, w') \<Rightarrow>
             (let st' = emit (Spawned command) (st\<lparr>world := w'\<rparr>)
              in case r of
                   Exit code \<Rightarrow>
                     if code \<noteq> Some 0
                     then (st', Inl (BuildError (''exit '' @ showCode code @ '' from:'' @ [CHR 0x0A]
                              @ ''    '' @ [CHR 0x1B] @ ''[31m'' @ prettyCommand command
                              @ [CHR 0x1B] @ ''[0m'' @ [CHR 0x0A])))
                     else (st', Inr ())
                 | SpawnError msg \<Rightarrow>
                     (st', Inl (BuildError (msg @ '' from:'' @ [CHR 0x0A] @ ''    ''
                              @ prettyCommand command))))))"

text \<open>\<^verbatim>\<open>fsPromises.mkdir(dir, { recursive: true })\<close>; its failure is not a
  \<^verbatim>\<open>BuildError\<close>.\<close>

definition mkdirp :: "'w env \<Rightarrow> string \<Rightarrow> 'w maek \<Rightarrow> 'w maek \<times> (error + unit)" where
  "mkdirp env dir st =
     (case mkdir env dir (world st) of
        (None, w') \<Rightarrow> (st\<lparr>world := w'\<rparr>, Inr ())
      | (Some msg, w') \<Rightarrow> (st\<lparr>world := w'\<rparr>, Inl (OtherError msg)))"

section \<open>Dynamic dependencies\<close>

text \<open>\<^verbatim>\<open>text.replace(/\\?\n/g, ' ')\<close>\<close>

fun joinLines :: "string \<Rightarrow> string" where
  "joinLines [] = []"
| "joinLines [c] = (if c = CHR 0x0A then '' '' else [c])"
| "joinLines (c # d # cs) =
     (if c = CHR 0x5C \<and> d = CHR 0x0A then CHR '' '' # joinLines cs
      else if c = CHR 0x0A then CHR '' '' # joinLines (d # cs)
      else c # joinLines (d # cs))"

text \<open>\<^verbatim>\<open>s.replace(/([^\\])\s+/g, '$1\n')\<close>: a code unit other than the backslash, and the
  longest run of white space after it, become that unit and one newline; the search goes
  on after the run.\<close>

function collapseSpace :: "string \<Rightarrow> string" where
  "collapseSpace [] = []"
| "collapseSpace [c] = [c]"
| "collapseSpace (c # d # cs) =
     (if c \<noteq> CHR 0x5C \<and> isSpace d
      then c # CHR 0x0A # collapseSpace (dropWhile isSpace cs)
      else c # collapseSpace (d # cs))"
  by pat_completeness auto
termination
  by (relation "measure length") (auto intro!: le_imp_less_Suc le_SucI length_dropWhile_le)

definition tokenize :: "string \<Rightarrow> string list" where
  "tokenize text = split_nl (collapseSpace (trim (joinLines text)))"

text \<open>
  \<^verbatim>\<open>target in inDepends\<close>, where \<^verbatim>\<open>inDepends\<close> is an object literal with one property
  for each explicit dependency: the operator \<^verbatim>\<open>in\<close> also finds the properties the object
  inherits from \<^verbatim>\<open>Object.prototype\<close>.
\<close>

definition inObject :: "string \<Rightarrow> string list \<Rightarrow> bool" where
  "inObject name ownNames = (name \<in> set ownNames \<or> name \<in> set objectPrototypeNames)"

text \<open>\<^verbatim>\<open>console.assert\<close> prints and goes on, so the first two tokens are dropped
  whatever they are; \<^verbatim>\<open>sort()\<close> orders strings by their code units.\<close>

definition loadDeps :: "'w env \<Rightarrow> string \<Rightarrow> string list \<Rightarrow> 'w \<Rightarrow> string list" where
  "loadDeps env depsFile deps w =
     (case readFile env w depsFile of
        None \<Rightarrow> []
      | Some text \<Rightarrow>
          filter (\<lambda>target. \<not> inObject target deps) (sort (drop 2 (tokenize text))))"

text \<open>The parameter \<^verbatim>\<open>ruleName\<close> is not used by the function.\<close>

definition assertNontargets :: "'w maek \<Rightarrow> string list \<Rightarrow> string \<Rightarrow> error + unit" where
  "assertNontargets st prerequisites ruleName =
     (let errorFiles = filter (\<lambda>target. lookupTask st target \<noteq> None) prerequisites
      in if errorFiles \<noteq> []
         then Inl (BuildError
                (''the following *generated* files are required but not mentioned as dependancies:''
                 @ [CHR 0x0A] @ ''  '' @ join ([CHR 0x0A] @ ''  '') errorFiles))
         else Inr ())"

section \<open>The hash cache\<close>

definition hashFile :: "'w env \<Rightarrow> 'w \<Rightarrow> string \<Rightarrow> string" where
  "hashFile env w file =
     (case readFile env w file of
        None \<Rightarrow> file @ '':x''
      | Some data \<Rightarrow> file @ '':'' @ md5_base64 env data)"

text \<open>
  What \<^verbatim>\<open>hashFile\<close> returns: the hash it has computed or finds among the own properties
  of the cache, or else the member of \<^verbatim>\<open>Object.prototype\<close> that the cache inherits under
  the name of the file.
\<close>

datatype hashed = Hash string | Inherited string

definition inHashCache :: "'w maek \<Rightarrow> string \<Rightarrow> bool" where
  "inHashCache st file = (hashCache st file \<noteq> None \<or> file \<in> set objectPrototypeNames)"

text \<open>
  \<^verbatim>\<open>files.map(hashFile)\<close> starts every lookup before any file is read: each file is
  looked up in the cache as it is at the call, a file found there counts a hit and yields
  what the cache has under its name, every other file is read and its hash stored.
\<close>

definition hashFiles :: "'w env \<Rightarrow> string list \<Rightarrow> 'w maek \<Rightarrow> 'w maek \<times> hashed list" where
  "hashFiles env targets st =
     (let files = filter (\<lambda>target. \<not> isAbstract target) targets;
          hashes = map (\<lambda>file. case hashCache st file of
                                  Some h \<Rightarrow> Hash h
                                | None \<Rightarrow> if file \<in> set objectPrototypeNames then Inherited file
                                          else Hash (hashFile env (world st) file)) files
      in (st\<lparr> hashCache := fold (\<lambda>file m. if inHashCache st file then m
                                           else m(file \<mapsto> hashFile env (world st) file))
                               files (hashCache st),
               hashCacheHits := hashCacheHits st + length (filter (inHashCache st) files) \<rparr>,
          hashes))"

text \<open>
  An entry as \<^verbatim>\<open>JSON.stringify\<close>, the one reader of a key, prints it in an array: a hash
  is a string, a function is \<^verbatim>\<open>null\<close>, and \<^verbatim>\<open>Object.prototype\<close> is the object of the
  properties the engine has written to it.
\<close>

definition prototypeJson :: "'w maek \<Rightarrow> json" where
  "prototypeJson st =
     JObj ((case m_cachedKey (prototype st) of Some key \<Rightarrow> [(''cachedKey'', key)] | None \<Rightarrow> [])
           @ (case m_src (prototype st) of Some s \<Rightarrow> [(''src'', JStr s)] | None \<Rightarrow> [])
           @ (case m_pending (prototype st) of Some p \<Rightarrow> [(''pending'', JObj [])] | None \<Rightarrow> []))"

definition keyEntry :: "'w maek \<Rightarrow> hashed \<Rightarrow> json" where
  "keyEntry st h =
     (case h of
        Hash s \<Rightarrow> JStr s
      | Inherited name \<Rightarrow> if name = ''__proto__'' then prototypeJson st else JNull)"

text \<open>\<^verbatim>\<open>delete this.hashCache[file]\<close>\<close>

definition invalidate :: "string \<Rightarrow> 'w maek \<Rightarrow> 'w maek" where
  "invalidate file st = st\<lparr>hashCache := (hashCache st)(file := None)\<rparr>"

section \<open>The scheduler\<close>

text \<open>
  An \<^verbatim>\<open>async\<close> function is modelled by the state it leaves and the value or the exception
  its promise settles with. The futures are run in one fixed order: every promise runs to
  its end where it is created, so a task is finished when \<^verbatim>\<open>updateTargets\<close> stores its
  promise in \<^verbatim>\<open>pending\<close>; this is the order in which the source runs the synchronous
  part of each task, which is where a task is looked up and entered. The closures of a
  task call \<^verbatim>\<open>updateTargets\<close> again; they take it as the parameter \<open>upd\<close>.
\<close>

type_synonym 'w upd = "string list \<Rightarrow> string \<Rightarrow> 'w maek \<Rightarrow> 'w maek \<times> (error + unit)"

definition andThen ::
  "('w maek \<Rightarrow> 'w maek \<times> (error + 'a)) \<Rightarrow> ('a \<Rightarrow> 'w maek \<Rightarrow> 'w maek \<times> (error + 'b))
   \<Rightarrow> 'w maek \<Rightarrow> 'w maek \<times> (error + 'b)"
where
  "andThen m f st = (case m st of (st', Inl e) \<Rightarrow> (st', Inl e) | (st', Inr x) \<Rightarrow> f x st')"

definition ok :: "'w maek \<Rightarrow> 'w maek \<times> (error + unit)" where
  "ok st = (st, Inr ())"

text \<open>The loop over the recipe, with the step number of the message.\<close>

fun runRecipe ::
  "'w env \<Rightarrow> string \<Rightarrow> nat \<Rightarrow> string list list \<Rightarrow> nat \<Rightarrow> 'w maek \<Rightarrow> 'w maek \<times> (error + unit)"
where
  "runRecipe env lbl n [] step st = (st, Inr ())"
| "runRecipe env lbl n (command # rest) step st =
     (case runCommand env command
             (lbl @ '' ('' @ show_nat step @ ''/'' @ show_nat n @ '')'') st of
        (st', Inl e) \<Rightarrow> (st', Inl e)
      | (st', Inr _) \<Rightarrow> runRecipe env lbl n rest (step + 1) st')"

text \<open>The body of \<^verbatim>\<open>task.run\<close>, for the task at address \<open>a\<close>.\<close>

definition runBody :: "'w upd \<Rightarrow> 'w env \<Rightarrow> nat \<Rightarrow> 'w maek \<Rightarrow> 'w maek \<times> (error + unit)" where
  "runBody upd env a st =
     (let lbl = label (heap st ! a)
      in case run (heap st ! a) of
           RuleRun targets prerequisites recipe \<Rightarrow>
             andThen (upd prerequisites lbl) (\<lambda>_.
             andThen (runRecipe env lbl (length recipe) recipe 1) (\<lambda>_ s.
               ok (fold invalidate targets s))) st
         | CppRun objFile depsFile deps objCommand depsCommand \<Rightarrow>
             andThen (upd deps lbl) (\<lambda>_.
             andThen (\<lambda>s. ok (invalidate objFile s)) (\<lambda>_.
             andThen (mkdirp env (dirname env objFile)) (\<lambda>_.
             andThen (runCommand env objCommand (lbl @ '': compile'')) (\<lambda>_.
             andThen (\<lambda>s. ok (invalidate depsFile s)) (\<lambda>_.
             andThen (mkdirp env (dirname env depsFile)) (\<lambda>_.
             andThen (runCommand env depsCommand (lbl @ '': prerequisites'')) (\<lambda>_ s.
               (s, assertNontargets s (loadDeps env depsFile deps (world s)) lbl)))))))) st
         | LinkRun exeFile deps linkCommand \<Rightarrow>
             andThen (upd deps lbl) (\<lambda>_.
             andThen (\<lambda>s. ok (invalidate exeFile s)) (\<lambda>_.
             andThen (mkdirp env (dirname env exeFile)) (\<lambda>_.
               runCommand env linkCommand (lbl @ '': link'')))) st)"

text \<open>The body of \<^verbatim>\<open>task.keyFn\<close> for a task that has one.\<close>

definition keyBody ::
  "'w upd \<Rightarrow> 'w env \<Rightarrow> nat \<Rightarrow> keyFn \<Rightarrow> 'w maek \<Rightarrow> 'w maek \<times> (error + json)"
where
  "keyBody upd env a kf st =
     (let lbl = label (heap st ! a)
      in case kf of
           RuleKey targets prerequisites recipe \<Rightarrow>
             andThen (upd prerequisites (lbl @ '' (keyFn)'')) (\<lambda>_ s.
               case hashFiles env (targets @ prerequisites) s of
                 (s', hashes) \<Rightarrow>
                   (s', Inr (JArr (map (\<lambda>command. JArr (map JStr command)) recipe
                                   @ map (keyEntry s') hashes)))) st
         | CppKey objFile depsFile deps objCommand depsCommand \<Rightarrow>
             andThen (upd deps (lbl @ '' (keyFn)'')) (\<lambda>_ s.
               let extraDepends = loadDeps env depsFile deps (world s)
               in case assertNontargets s extraDepends lbl of
                    Inl e \<Rightarrow> (s, Inl e)
                  | Inr _ \<Rightarrow>
                      (case hashFiles env ([objFile, depsFile] @ deps @ extraDepends) s of
                         (s', hashes) \<Rightarrow>
                           (s', Inr (JArr ([JArr (map JStr objCommand), JArr (map JStr depsCommand)]
                                           @ map (keyEntry s') hashes))))) st
         | LinkKey exeFile deps linkCommand \<Rightarrow>
             andThen (upd deps (lbl @ '' (keyFn)'')) (\<lambda>_ s.
               case hashFiles env (exeFile # deps) s of
                 (s', hashes) \<Rightarrow>
                   (s', Inr (JArr (JArr (map JStr linkCommand) # map (keyEntry s') hashes)))) st)"

definition callRun :: "'w upd \<Rightarrow> 'w env \<Rightarrow> nat \<Rightarrow> 'w maek \<Rightarrow> 'w maek \<times> (error + unit)" where
  "callRun upd env a st = runBody upd env a (emit (RunInvoked a) st)"

definition callKey ::
  "'w upd \<Rightarrow> 'w env \<Rightarrow> nat \<Rightarrow> keyFn \<Rightarrow> 'w maek \<Rightarrow> 'w maek \<times> (error + json)"
where
  "callKey upd env a kf st = keyBody upd env a kf (emit (KeyInvoked a) st)"

text \<open>On a cache miss: run the task, then store its key.\<close>

definition onMiss :: "'w upd \<Rightarrow> 'w env \<Rightarrow> nat \<Rightarrow> 'w maek \<Rightarrow> 'w maek \<times> (error + unit)" where
  "onMiss upd env a st =
     (case callRun upd env a st of
        (st1, Inl e) \<Rightarrow> (st1, Inl e)
      | (st1, Inr _) \<Rightarrow>
          (case keyFn (heap st1 ! a) of
             None \<Rightarrow> (st1, Inr ())
           | Some kf \<Rightarrow>
               (case callKey upd env a kf st1 of
                  (st2, Inl e) \<Rightarrow> (st2, Inl e)
                | (st2, Inr key) \<Rightarrow> (setTask a (\<lambda>t. t\<lparr>cachedKey := Some key\<rparr>) st2, Inr ()))))"

text \<open>The \<^verbatim>\<open>try\<close> block of the function stored in \<^verbatim>\<open>task.pending\<close>.\<close>

definition tryBlock :: "'w upd \<Rightarrow> 'w env \<Rightarrow> nat \<Rightarrow> 'w maek \<Rightarrow> 'w maek \<times> (error + unit)" where
  "tryBlock upd env a st =
     (case (taskKey st a, keyFn (heap st ! a)) of
        (Some _, Some kf) \<Rightarrow>
          (case callKey upd env a kf st of
             (st1, Inl e) \<Rightarrow> (st1, Inl e)
           | (st1, Inr key) \<Rightarrow>
               if map_option stringify (taskKey st1 a) = Some (stringify key)
               then (st1, Inr ())
               else onMiss upd env a st1)
      | _ \<Rightarrow> onMiss upd env a st)"

text \<open>The whole function: a \<^verbatim>\<open>BuildError\<close> is reported and marks the task, the promise
  resolves; any other exception rejects the promise.\<close>

definition launch :: "'w upd \<Rightarrow> 'w env \<Rightarrow> nat \<Rightarrow> 'w maek \<Rightarrow> 'w maek \<times> promise" where
  "launch upd env a st =
     (case tryBlock upd env a st of
        (st1, Inr _) \<Rightarrow> (st1, Resolved)
      | (st1, Inl (BuildError msg)) \<Rightarrow>
          (setTask a (\<lambda>t. t\<lparr>failed := True\<rparr>)
             (emit (ConsoleError (''!!! FAILED ['' @ label (heap st1 ! a) @ ''] '' @ msg)) st1),
           Resolved)
      | (st1, Inl (OtherError msg)) \<Rightarrow> (st1, Rejected (OtherError msg)))"

text \<open>
  The first loop of \<^verbatim>\<open>updateTargets\<close>: it collects the promises, or throws at an
  abstract target without a task. What \<^verbatim>\<open>this.tasks[target]\<close> finds is taken for a task:
  a member of \<^verbatim>\<open>Object.prototype\<close> that has no \<^verbatim>\<open>pending\<close> is given the requester and
  the promise of a function that calls its \<^verbatim>\<open>run\<close>; it has none, and the promise is
  rejected with the \<^verbatim>\<open>TypeError\<close>.
\<close>

definition notCallable :: promise where
  "notCallable = Rejected (OtherError ''TypeError: task.run is not a function'')"

fun request ::
  "'w upd \<Rightarrow> 'w env \<Rightarrow> string \<Rightarrow> string list \<Rightarrow> promise list \<Rightarrow> 'w maek
   \<Rightarrow> 'w maek \<times> (error + promise list)"
where
  "request upd env requester [] pend st = (st, Inr pend)"
| "request upd env requester (target # rest) pend st =
     (case lookupTask st target of
        Some (TaskAt a) \<Rightarrow>
          (case taskPending st a of
             None \<Rightarrow>
               (case launch upd env a (setTask a (\<lambda>t. t\<lparr>src := Some requester\<rparr>) st) of
                  (st1, p) \<Rightarrow>
                    request upd env requester rest (pend @ [p])
                      (setTask a (\<lambda>t. t\<lparr>pending := Some p\<rparr>) st1))
           | Some p \<Rightarrow> request upd env requester rest (pend @ [p]) st)
      | Some (Member name) \<Rightarrow>
          (case memberPending st name of
             None \<Rightarrow>
               request upd env requester rest (pend @ [notCallable])
                 (setMember name (\<lambda>m. m\<lparr>m_pending := Some notCallable\<rparr>)
                    (setMember name (\<lambda>m. m\<lparr>m_src := Some requester\<rparr>) st))
           | Some p \<Rightarrow> request upd env requester rest (pend @ [p]) st)
      | None \<Rightarrow>
          if isAbstract target
          then (st, Inl (BuildError (''Target '' @ [CHR 0x27] @ target @ [CHR 0x27] @ '' (requested by '' @ requester
                           @ '') is abstract but doesn't have a task.'')))
          else request upd env requester rest
                 (pend @ [if access env (world st) target then Resolved
                          else Rejected (BuildError (''Target '' @ [CHR 0x27] @ target @ [CHR 0x27] @ '' (requested by ''
                                 @ requester @ '') doesn't exist and doesn't have a task to make it.''))])
                 st)"

text \<open>\<^verbatim>\<open>await Promise.all(pending)\<close> on settled promises: the first rejection, by
  position.\<close>

fun awaitAll :: "promise list \<Rightarrow> error + unit" where
  "awaitAll [] = Inr ()"
| "awaitAll (Resolved # ps) = awaitAll ps"
| "awaitAll (Rejected e # ps) = Inl e"

text \<open>The second loop of \<^verbatim>\<open>updateTargets\<close>.\<close>

fun checkFailed :: "'w maek \<Rightarrow> string list \<Rightarrow> error + unit" where
  "checkFailed st [] = Inr ()"
| "checkFailed st (target # rest) =
     (case lookupTask st target of
        Some (TaskAt a) \<Rightarrow>
          if failed (heap st ! a) then Inl (BuildError (''for lack of '' @ target))
          else checkFailed st rest
      | _ \<Rightarrow> checkFailed st rest)"

definition updateTargetsBody :: "'w upd \<Rightarrow> 'w env \<Rightarrow> 'w upd" where
  "updateTargetsBody upd env targets requester st =
     (case request upd env requester targets [] st of
        (st1, Inl e) \<Rightarrow> (st1, Inl e)
      | (st1, Inr pend) \<Rightarrow>
          (case awaitAll pend of
             Inl e \<Rightarrow> (st1, Inl e)
           | Inr _ \<Rightarrow> (st1, checkFailed st1 targets)))"

text \<open>
  \<^verbatim>\<open>updateTargets\<close>. The first argument is the number of nested calls the call stack
  still has room for: the source recurses without a bound of its own, and the engine's
  \<^verbatim>\<open>RangeError\<close> ends a recursion that does not end by itself.
\<close>

primrec updateTargets :: "nat \<Rightarrow> 'w env \<Rightarrow> 'w upd" where
  "updateTargets 0 env =
     (\<lambda>targets requester st. (st, Inl (OtherError ''RangeError: Maximum call stack size exceeded'')))"
| "updateTargets (Suc depth) env = updateTargetsBody (updateTargets depth env) env"

section \<open>The driver\<close>

text \<open>The two loops around the cache file.\<close>

definition clearKeys :: "'w maek \<Rightarrow> 'w maek" where
  "clearKeys st =
     fold (\<lambda>target s. case taskOf s target of
                         Some a \<Rightarrow> setTask a (\<lambda>t. t\<lparr>cachedKey := None\<rparr>) s
                       | None \<Rightarrow> s)
          (map fst (tasks st)) st"

definition loadKeys :: "(string \<times> json) list \<Rightarrow> 'w maek \<Rightarrow> 'w maek" where
  "loadKeys cache st =
     fold (\<lambda>(target, key) s. case lookupTask s target of
                                Some (TaskAt a) \<Rightarrow> setTask a (\<lambda>t. t\<lparr>cachedKey := Some key\<rparr>) s
                              | Some (Member name) \<Rightarrow>
                                  setMember name (\<lambda>m. m\<lparr>m_cachedKey := Some key\<rparr>) s
                              | None \<Rightarrow> s)
          cache st"

definition storedKeys :: "'w maek \<Rightarrow> (string \<times> json) list" where
  "storedKeys st =
     concat (map (\<lambda>(target, a). case taskKey st a of
                                   Some key \<Rightarrow> [(target, key)]
                                 | None \<Rightarrow> [])
                 (tasks st))"

text \<open>The state when the build starts: stale keys deleted, the keys of the cache file
  loaded.\<close>

definition preload :: "'w maek \<Rightarrow> 'w maek" where
  "preload st =
     (let st1 = clearKeys st
      in case cacheFile st1 of None \<Rightarrow> st1 | Some cache \<Rightarrow> loadKeys cache st1)"

text \<open>
  \<^verbatim>\<open>update\<close>. A \<^verbatim>\<open>BuildError\<close> of the build sets the exit code and the cache file is
  written all the same; any other exception leaves \<^verbatim>\<open>update\<close> before the cache file is
  written.
\<close>

definition update :: "nat \<Rightarrow> 'w env \<Rightarrow> string list \<Rightarrow> 'w maek \<Rightarrow> 'w maek \<times> (error + unit)" where
  "update depth env targets st =
     (case updateTargets depth env targets ''user'' (preload st) of
        (st3, Inl (OtherError msg)) \<Rightarrow> (st3, Inl (OtherError msg))
      | (st3, Inl (BuildError msg)) \<Rightarrow>
          (let st4 = st3\<lparr>exitCode := 1\<rparr>
           in (st4\<lparr>cacheFile := Some (storedKeys st4)\<rparr>, Inr ()))
      | (st3, Inr _) \<Rightarrow> (st3\<lparr>cacheFile := Some (storedKeys st3)\<rparr>, Inr ()))"

section \<open>A small world to run the engine in\<close>

text \<open>
  A world of files with their contents, and a few commands: \<open>true\<close> and \<open>false\<close> exit with 0
  and 1, \<open>write f s\<close> writes \<open>s\<close> to \<open>f\<close>, \<open>cp a b\<close> copies, \<open>g++\<close> exits with 0 and writes
  nothing, every other command cannot be spawned. The digest of this world is the content
  itself, and every directory exists.
\<close>

type_synonym files = "(string \<times> string) list"

definition demoSpawn :: "string list \<Rightarrow> files \<Rightarrow> proc_result \<times> files" where
  "demoSpawn command w =
     (if take 1 command = [''g++''] then (Exit (Some 0), w) else
      case command of
        [c] \<Rightarrow> if c = ''true'' then (Exit (Some 0), w)
              else if c = ''false'' then (Exit (Some 1), w)
              else (SpawnError (''spawn '' @ c @ '' ENOENT''), w)
      | [c, f, s] \<Rightarrow>
          if c = ''write'' then (Exit (Some 0), assign w f s)
          else if c = ''cp'' then
            (case map_of w f of
               Some d \<Rightarrow> (Exit (Some 0), assign w s d)
             | None \<Rightarrow> (Exit (Some 1), w))
          else (SpawnError (''spawn '' @ c @ '' ENOENT''), w)
      | _ \<Rightarrow> (SpawnError ''spawn ENOENT'', w))"

definition demoEnv :: "files env" where
  "demoEnv =
     \<lparr> readFile = (\<lambda>w f. map_of w f),
       access = (\<lambda>w f. map_of w f \<noteq> None),
       mkdir = (\<lambda>d w. (None, w)),
       spawn = demoSpawn,
       md5_base64 = (\<lambda>s. s),
       dirname = (\<lambda>p. ''.''),
       relative = (\<lambda>p. p),
       OS = Linux \<rparr>"

text \<open>The observations the claims are about.\<close>

definition runCount :: "'w maek \<Rightarrow> nat \<Rightarrow> nat" where
  "runCount st a = count_list (trace st) (RunInvoked a)"

definition keyCount :: "'w maek \<Rightarrow> nat \<Rightarrow> nat" where
  "keyCount st a = count_list (trace st) (KeyInvoked a)"

section \<open>The job pool\<close>

text \<open>
  The pool is a transition system over the module's two variables, \<^verbatim>\<open>active\<close> and the
  queue \<^verbatim>\<open>pending\<close> (here \<open>queue\<close>), and the number \<open>ticks\<close> of calls of \<^verbatim>\<open>schedule\<close>
  that \<^verbatim>\<open>process.nextTick\<close> holds. A job is named by a number. \<open>running\<close> are the jobs
  whose function has been called and has not settled, \<open>started\<close> all the jobs whose function
  has been called, in the order of the calls.
\<close>

record pool =
  active :: nat
  queue :: "nat list"
  ticks :: nat
  running :: "nat list"
  started :: "nat list"

definition JOBS :: "nat \<Rightarrow> nat" where
  "JOBS cpus = cpus + 1"


text \<open>
  What happens to the pool: \<open>Submit j\<close> is a call \<^verbatim>\<open>job(jobFn)\<close>; \<open>Tick\<close> is the event loop
  calling one \<^verbatim>\<open>schedule\<close> that \<^verbatim>\<open>nextTick\<close> holds, up to its \<^verbatim>\<open>await\<close>; \<open>Finish j\<close> is
  the function of job \<open>j\<close> settling, and \<^verbatim>\<open>schedule\<close> going on after its \<^verbatim>\<open>await\<close>.
\<close>

datatype pool_event = Submit nat | Tick | Finish nat

text \<open>\<^verbatim>\<open>job\<close>: one more \<^verbatim>\<open>schedule\<close> for the next tick, the job at the end of the
  queue.\<close>

definition job :: "nat \<Rightarrow> pool \<Rightarrow> pool" where
  "job j p = p\<lparr> ticks := ticks p + 1, queue := queue p @ [j] \<rparr>"

text \<open>\<^verbatim>\<open>schedule\<close> up to the call of the job's function.\<close>

definition schedule :: "nat \<Rightarrow> pool \<Rightarrow> pool" where
  "schedule cpus p =
     (if active p < JOBS cpus \<and> queue p \<noteq> []
      then p\<lparr> active := active p + 1, queue := tl (queue p),
              running := running p @ [hd (queue p)], started := started p @ [hd (queue p)] \<rparr>
      else p)"

text \<open>\<^verbatim>\<open>schedule\<close> after the \<^verbatim>\<open>await\<close>.\<close>

definition finish :: "nat \<Rightarrow> pool \<Rightarrow> pool" where
  "finish j p = p\<lparr> running := remove1 j (running p), active := active p - 1, ticks := ticks p + 1 \<rparr>"

text \<open>An event that cannot happen in a state (no \<^verbatim>\<open>schedule\<close> is held, the job is not
  running) has no successor.\<close>

definition step :: "nat \<Rightarrow> pool_event \<Rightarrow> pool \<Rightarrow> pool option" where
  "step cpus ev p =
     (case ev of
        Submit j \<Rightarrow> Some (job j p)
      | Tick \<Rightarrow> if ticks p = 0 then None else Some (schedule cpus (p\<lparr>ticks := ticks p - 1\<rparr>))
      | Finish j \<Rightarrow> if j \<in> set (running p) then Some (finish j p) else None)"



section \<open>Registries used in the examples\<close>

text \<open>A C++ file whose deps file names a header that a rule generates.\<close>

definition genFiles :: files where
  "genFiles = [(''a.cpp'', ''int main(){}''), (''objs/a.d'', ''x : a.cpp gen.h'')]"

definition genMaek :: "files maek" where
  "genMaek =
     (case CPP demoEnv ''a.cpp'' None noOptions
             (RULE [''gen.h''] [] [[''write'', ''gen.h'', ''//'']] (newMaek demoEnv genFiles)) of
        Inr (objFile, st) \<Rightarrow> st
      | Inl e \<Rightarrow> newMaek demoEnv genFiles)"

text \<open>A C++ file that includes a header named \<^verbatim>\<open>constructor\<close>.\<close>

definition ctorFiles :: files where
  "ctorFiles = [(''a.cpp'', ''int main(){}''), (''constructor'', ''//''),
                (''util.h'', ''//''), (''objs/a.d'', ''x : a.cpp constructor util.h'')]"




definition loopMaek :: "files maek" where
  "loopMaek = RULE [''y''] [''x''] [] (RULE [''x''] [''y''] [] (newMaek demoEnv []))"

text \<open>A chain of two copies, the state after it is built, and that state with the source
  file rewritten.\<close>

definition chainMaek :: "files maek" where
  "chainMaek =
     RULE [''out''] [''mid''] [[''cp'', ''mid'', ''out'']]
       (RULE [''mid''] [''in''] [[''cp'', ''in'', ''mid'']] (newMaek demoEnv [(''in'', ''hello'')]))"

definition chainBuilt :: "files maek" where
  "chainBuilt = fst (update 5 demoEnv [''out''] chainMaek)"

definition chainTouched :: "files maek" where
  "chainTouched = chainBuilt \<lparr> world := assign (world chainBuilt) ''in'' ''changed'' \<rparr>"

text \<open>A rule whose command fails, with a key from an earlier build in the cache file.\<close>

definition failMaek :: "files maek" where
  "failMaek =
     (RULE [''out''] [] [[''false'']] (newMaek demoEnv []))
       \<lparr> cacheFile := Some [(''out'', JArr [JStr ''old''])] \<rparr>"



text \<open>The chain in a new process after it has been built: the files and the cache file of
  the first build, the keys loaded; and the same with the source file rewritten.\<close>

definition chainAgain :: "files maek" where
  "chainAgain = preload (chainMaek \<lparr> world := world chainBuilt, cacheFile := cacheFile chainBuilt \<rparr>)"

definition chainEdited :: "files maek" where
  "chainEdited = chainAgain \<lparr> world := assign (world chainAgain) ''in'' ''changed'' \<rparr>"


section \<open>Dependency order\<close>

text \<open>The targets a task's \<^verbatim>\<open>run\<close> and \<^verbatim>\<open>keyFn\<close> pass to \<^verbatim>\<open>updateTargets\<close>.\<close>

definition runDeps :: "Task \<Rightarrow> string list" where
  "runDeps t =
     (case run t of
        RuleRun targets prerequisites recipe \<Rightarrow> prerequisites
      | CppRun objFile depsFile deps objCommand depsCommand \<Rightarrow> deps
      | LinkRun exeFile deps linkCommand \<Rightarrow> deps)"

definition kfDeps :: "keyFn \<Rightarrow> string list" where
  "kfDeps kf =
     (case kf of
        RuleKey targets prerequisites recipe \<Rightarrow> prerequisites
      | CppKey objFile depsFile deps objCommand depsCommand \<Rightarrow> deps
      | LinkKey exeFile deps linkCommand \<Rightarrow> deps)"

definition keyDeps :: "Task \<Rightarrow> string list" where
  "keyDeps t = (case keyFn t of None \<Rightarrow> [] | Some kf \<Rightarrow> kfDeps kf)"

text \<open>
  A registry is ranked by \<open>rank\<close> when every registered task is on the heap and each target
  it asks for is made by a task of lower rank, or by none: the dependency graph of the
  registry has no cycle.
\<close>

definition ranked :: "(nat \<Rightarrow> nat) \<Rightarrow> 'w maek \<Rightarrow> bool" where
  "ranked rank st =
     list_all (\<lambda>(target, a).
        a < length (heap st) \<and>
        list_all (\<lambda>d. case taskOf st d of None \<Rightarrow> True | Some b \<Rightarrow> rank b < rank a)
                 (runDeps (heap st ! a) @ keyDeps (heap st ! a)))
       (tasks st)"

text \<open>
  \<open>quiet A st st'\<close>: from \<open>st\<close> to \<open>st'\<close> the registry and what a rule builder stores in a
  task are the same, no promise, no failure mark and no cached key is taken back, no call is
  forgotten, a task without a key function keeps its cached key and its key function is not
  called, and a task outside \<open>A\<close> is neither changed nor called; a member of
  \<^verbatim>\<open>Object.prototype\<close> keeps its cached key, and it is as it was or its promise has been
  set, from none, to the rejected one.
\<close>

definition quiet :: "nat set \<Rightarrow> 'w maek \<Rightarrow> 'w maek \<Rightarrow> bool" where
  "quiet A st st' \<longleftrightarrow>
     tasks st' = tasks st \<and> options st' = options st \<and> cacheFile st' = cacheFile st \<and>
     exitCode st' = exitCode st \<and> length (heap st') = length (heap st) \<and>
     (\<forall>a. run (heap st' ! a) = run (heap st ! a) \<and>
          keyFn (heap st' ! a) = keyFn (heap st ! a) \<and>
          label (heap st' ! a) = label (heap st ! a) \<and>
          (keyFn (heap st ! a) = None \<longrightarrow>
             cachedKey (heap st' ! a) = cachedKey (heap st ! a) \<and> keyCount st' a = keyCount st a) \<and>
          (pending (heap st ! a) \<noteq> None \<longrightarrow> pending (heap st' ! a) \<noteq> None) \<and>
          (cachedKey (heap st ! a) \<noteq> None \<longrightarrow> cachedKey (heap st' ! a) \<noteq> None) \<and>
          (failed (heap st ! a) \<longrightarrow> failed (heap st' ! a)) \<and>
          runCount st a \<le> runCount st' a \<and> keyCount st a \<le> keyCount st' a) \<and>
     (\<forall>a. a \<notin> A \<longrightarrow>
          heap st' ! a = heap st ! a \<and> runCount st' a = runCount st a \<and>
          keyCount st' a = keyCount st a) \<and>
     (\<forall>name. m_cachedKey (members st' name) = m_cachedKey (members st name) \<and>
          (members st' name = members st name \<or>
           m_pending (members st name) = None \<and>
           m_pending (members st' name) = Some notCallable))"

text \<open>
  \<open>neutral R\<close>: the relation \<open>R\<close> on states is reflexive and transitive, holds of every step
  that leaves all tasks alone, and changes nothing a rule builder has stored.
\<close>

definition neutral :: "('w maek \<Rightarrow> 'w maek \<Rightarrow> bool) \<Rightarrow> bool" where
  "neutral R \<longleftrightarrow>
     (\<forall>s. R s s) \<and> (\<forall>s s' s''. R s s' \<longrightarrow> R s' s'' \<longrightarrow> R s s'') \<and>
     (\<forall>s s'. quiet {} s s' \<longrightarrow> R s s') \<and> (\<forall>s s'. R s s' \<longrightarrow> quiet UNIV s s')"

text \<open>
  The course of the \<^verbatim>\<open>try\<close> block of task \<open>b\<close> from \<open>st\<close> to \<open>st'\<close>, with \<open>R\<close> for what the
  calls of \<open>updateTargets\<close> and the commands do: a key check or none, then nothing more, or
  the run; after the run nothing more, or the key function; after it nothing more, or the
  key is stored and the block ends well.
\<close>

definition missShape ::
  "('w maek \<Rightarrow> 'w maek \<Rightarrow> bool) \<Rightarrow> nat \<Rightarrow> 'w maek \<Rightarrow> 'w maek \<Rightarrow> error + unit \<Rightarrow> bool"
where
  "missShape R b st st' r \<longleftrightarrow>
     (\<exists>sb. R (emit (RunInvoked b) st) sb \<and>
        (st' = sb \<or>
         (\<exists>sc. R (emit (KeyInvoked b) sb) sc \<and>
            (st' = sc \<or>
             (r = Inr () \<and>
              (\<exists>key. st' = setTask b (\<lambda>t. t\<lparr>cachedKey := Some key\<rparr>) sc))))))"

definition tryShape ::
  "('w maek \<Rightarrow> 'w maek \<Rightarrow> bool) \<Rightarrow> nat \<Rightarrow> 'w maek \<Rightarrow> 'w maek \<Rightarrow> error + unit \<Rightarrow> bool"
where
  "tryShape R b st st' r \<longleftrightarrow>
     missShape R b st st' r \<or>
     (\<exists>sa. R (emit (KeyInvoked b) st) sa \<and> (st' = sa \<or> missShape R b sa st' r))"

text \<open>
  Between two states a task is \<open>untouched\<close>, or it has been \<open>settledOnce\<close>: it had no promise
  and has one, its \<^verbatim>\<open>run\<close> was called once at most, and if it has been marked failed its
  cached key is the one it had.
\<close>

definition untouched :: "'w maek \<Rightarrow> 'w maek \<Rightarrow> nat \<Rightarrow> bool" where
  "untouched st st' a \<longleftrightarrow>
     heap st' ! a = heap st ! a \<and> runCount st' a = runCount st a \<and> keyCount st' a = keyCount st a"

definition settledOnce :: "'w maek \<Rightarrow> 'w maek \<Rightarrow> nat \<Rightarrow> bool" where
  "settledOnce st st' a \<longleftrightarrow>
     pending (heap st ! a) = None \<and> pending (heap st' ! a) \<noteq> None \<and>
     runCount st' a \<le> runCount st a + 1 \<and>
     (failed (heap st' ! a) \<and> \<not> failed (heap st ! a)
        \<longrightarrow> cachedKey (heap st' ! a) = cachedKey (heap st ! a))"

definition once :: "'w maek \<Rightarrow> 'w maek \<Rightarrow> bool" where
  "once st st' \<longleftrightarrow> (\<forall>a. untouched st st' a \<or> settledOnce st st' a)"

text \<open>
  A registry as the rule builders make it: one entry for a target, every task on the heap.
  An assignment to \<^verbatim>\<open>this.tasks['__proto__']\<close> adds no property to the object, so the
  registry has no entry of that name.
\<close>

definition wellFormed :: "'w maek \<Rightarrow> bool" where
  "wellFormed st \<longleftrightarrow>
     distinct (map fst (tasks st)) \<and> list_all (\<lambda>(target, a). a < length (heap st)) (tasks st) \<and>
     ''__proto__'' \<notin> set (map fst (tasks st))"


text \<open>
  \<open>progress b k st st'\<close>: while task \<open>b\<close> is under way from \<open>st\<close> to \<open>st'\<close>, every other task is
  untouched or settled once, the promise, the failure mark and the cached key of \<open>b\<close> are as
  they were, and the \<^verbatim>\<open>run\<close> of \<open>b\<close> has been called \<open>k\<close> times.
\<close>

definition progress :: "nat \<Rightarrow> nat \<Rightarrow> 'w maek \<Rightarrow> 'w maek \<Rightarrow> bool" where
  "progress b k st st' \<longleftrightarrow>
     (\<forall>a. a \<noteq> b \<longrightarrow> untouched st st' a \<or> settledOnce st st' a) \<and>
     pending (heap st' ! b) = pending (heap st ! b) \<and>
     failed (heap st' ! b) = failed (heap st ! b) \<and>
     cachedKey (heap st' ! b) = cachedKey (heap st ! b) \<and>
     runCount st' b = runCount st b + k"

text \<open>No task has run twice, and a task without a promise has not run.\<close>

definition atMostOnce :: "'w maek \<Rightarrow> bool" where
  "atMostOnce st \<longleftrightarrow>
     (\<forall>a. runCount st a \<le> 1 \<and> (pending (heap st ! a) = None \<longrightarrow> runCount st a = 0))"






text \<open>
  \<open>began st st'\<close>: from \<open>st\<close> to \<open>st'\<close> no call is forgotten, and a task that had no promise
  of its own and has one has been started in between: its key function or its \<^verbatim>\<open>run\<close> has
  been called.
\<close>

definition began :: "'w maek \<Rightarrow> 'w maek \<Rightarrow> bool" where
  "began st st' \<longleftrightarrow>
     (\<forall>a. runCount st a \<le> runCount st' a \<and> keyCount st a \<le> keyCount st' a \<and>
          (pending (heap st ! a) = None \<and> pending (heap st' ! a) \<noteq> None \<longrightarrow>
             runCount st a + keyCount st a < runCount st' a + keyCount st' a))"



section \<open>Dynamic dependencies: \<open>loadDeps\<close> and \<open>assertNontargets\<close>\<close>

lemma loadDeps_unreadable:
  "readFile env w depsFile = None \<Longrightarrow> loadDeps env depsFile deps w = []"
  by (simp add: loadDeps_def)

lemma loadDeps_sorted: "sorted (loadDeps env depsFile deps w)"
  by (auto simp: loadDeps_def sorted_filter[where f = "\<lambda>x. x", simplified] split: option.splits)

lemma loadDeps_tokens:
  "readFile env w depsFile = Some text \<Longrightarrow>
   set (loadDeps env depsFile deps w) =
     {t \<in> set (drop 2 (tokenize text)). t \<notin> set deps \<and> t \<notin> set objectPrototypeNames}"
  by (auto simp: loadDeps_def inObject_def)

text \<open>
  C6 (the code departs from the claim). \<open>loadDeps\<close> is to return the sorted tokens that are not
  explicit dependencies. The deps file \<^verbatim>\<open>x : a.cpp constructor util.h\<close> with the explicit
  dependency \<^verbatim>\<open>a.cpp\<close> has the two other tokens \<^verbatim>\<open>constructor\<close> and \<^verbatim>\<open>util.h\<close>;
  \<open>loadDeps\<close> returns \<^verbatim>\<open>util.h\<close> alone, because \<^verbatim>\<open>'constructor' in inDepends\<close> holds of
  every object.
\<close>

theorem C6_loadDeps_drops_inherited_name:
  "loadDeps demoEnv ''objs/a.d'' [''a.cpp''] ctorFiles = [''util.h'']"
  by code_simp

lemma assertNontargets_ruleName:
  "assertNontargets st prerequisites ruleName = assertNontargets st prerequisites ruleName'"
  by (simp add: assertNontargets_def)

lemma assertNontargets_fails_iff:
  "(\<exists>e. assertNontargets st prerequisites ruleName = Inl e) \<longleftrightarrow>
   (\<exists>p \<in> set prerequisites. lookupTask st p \<noteq> None)"
  by (auto simp: assertNontargets_def Let_def filter_empty_conv)

text \<open>
  C7 (the code departs from the claim). A dynamic dependency that is a registered target makes
  the task fail with a \<^verbatim>\<open>BuildError\<close> that lists the offending files, and the message is
  to name the rule. For the C++ file whose deps file names the generated \<^verbatim>\<open>gen.h\<close>, the
  task is marked failed and the message of the error lists \<^verbatim>\<open>gen.h\<close>, but the rule name
  \<^verbatim>\<open>CPP objs/a.o\<close> passed to \<open>assertNontargets\<close> is not in it.
\<close>

theorem C7_generated_header_message:
  "assertNontargets genMaek (loadDeps demoEnv ''objs/a.d'' [''a.cpp''] (world genMaek))
     ''CPP objs/a.o''
   = Inl (BuildError
       (''the following *generated* files are required but not mentioned as dependancies:''
        @ [CHR 0x0A] @ ''  gen.h''))
   \<and> failed (heap (fst (update 5 demoEnv [''objs/a.o''] genMaek)) ! 1)"
  by code_simp

section \<open>The hash cache: \<open>hashFiles\<close>\<close>

lemma hashFiles_length:
  "length (snd (hashFiles env targets st)) = length (filter (\<lambda>t. \<not> isAbstract t) targets)"
  by (simp add: hashFiles_def Let_def)








section \<open>What a call of \<open>updateTargets\<close> leaves alone\<close>

lemma nth_setTask:
  "heap (setTask a f st) ! b = (if b = a \<and> a < length (heap st) then f (heap st ! a) else heap st ! b)"
  by (cases "a < length (heap st)") (auto simp: setTask_def list_update_beyond)

lemma setTask_fields [simp]:
  "tasks (setTask a f st) = tasks st" "options (setTask a f st) = options st"
  "cacheFile (setTask a f st) = cacheFile st" "exitCode (setTask a f st) = exitCode st"
  "trace (setTask a f st) = trace st" "world (setTask a f st) = world st"
  "hashCache (setTask a f st) = hashCache st" "length (heap (setTask a f st)) = length (heap st)"
  "members (setTask a f st) = members st"
  by (simp_all add: setTask_def)

lemma setMember_fields [simp]:
  "tasks (setMember name f st) = tasks st" "options (setMember name f st) = options st"
  "cacheFile (setMember name f st) = cacheFile st" "exitCode (setMember name f st) = exitCode st"
  "trace (setMember name f st) = trace st" "world (setMember name f st) = world st"
  "hashCache (setMember name f st) = hashCache st" "heap (setMember name f st) = heap st"
  "members (setMember name f st) n = (if n = name then f (members st name) else members st n)"
  by (simp_all add: setMember_def)

lemma emit_fields [simp]:
  "tasks (emit e st) = tasks st" "options (emit e st) = options st"
  "cacheFile (emit e st) = cacheFile st" "exitCode (emit e st) = exitCode st"
  "heap (emit e st) = heap st" "world (emit e st) = world st"
  "hashCache (emit e st) = hashCache st" "trace (emit e st) = trace st @ [e]"
  "members (emit e st) = members st"
  by (simp_all add: emit_def)

lemma taskOf_setTask [simp]: "taskOf (setTask a f st) t = taskOf st t"
  by (simp add: taskOf_def)

lemma taskOf_emit [simp]: "taskOf (emit e st) t = taskOf st t"
  by (simp add: taskOf_def)

lemma taskOf_setMember [simp]: "taskOf (setMember name f st) t = taskOf st t"
  by (simp add: taskOf_def)

lemma lookupTask_simps [simp]:
  "lookupTask (setTask a f st) t = lookupTask st t" "lookupTask (emit e st) t = lookupTask st t"
  "lookupTask (setMember name g st) t = lookupTask st t"
  by (simp_all add: lookupTask_def)

lemma lookupTask_cases:
  obtains (task) a where "taskOf st t = Some a" "lookupTask st t = Some (TaskAt a)"
  | (member) "taskOf st t = None" "t \<in> set objectPrototypeNames" "lookupTask st t = Some (Member t)"
  | (none) "taskOf st t = None" "t \<notin> set objectPrototypeNames" "lookupTask st t = None"
  by (cases "taskOf st t") (auto simp: lookupTask_def)

lemma runCount_setMember [simp]: "runCount (setMember name f st) b = runCount st b"
  by (simp add: runCount_def)

lemma keyCount_setMember [simp]: "keyCount (setMember name f st) b = keyCount st b"
  by (simp add: keyCount_def)

lemma prototype_simps [simp]:
  "prototype (st\<lparr>exitCode := e\<rparr>) = prototype st" "prototype (st\<lparr>cacheFile := c\<rparr>) = prototype st"
  "prototype (st\<lparr>world := w\<rparr>) = prototype st" "prototype (setTask a f st) = prototype st"
  "prototype (emit ev st) = prototype st"
  by (simp_all add: prototype_def)

lemma taskKey_simps [simp]:
  "taskKey (st\<lparr>exitCode := e\<rparr>) a = taskKey st a" "taskKey (st\<lparr>cacheFile := c\<rparr>) a = taskKey st a"
  "taskKey (st\<lparr>world := w\<rparr>) a = taskKey st a" "taskKey (emit ev st) a = taskKey st a"
  by (simp_all add: taskKey_def split: option.splits)

lemma taskPending_simps [simp]:
  "taskPending (st\<lparr>exitCode := e\<rparr>) a = taskPending st a"
  "taskPending (st\<lparr>cacheFile := c\<rparr>) a = taskPending st a"
  "taskPending (st\<lparr>world := w\<rparr>) a = taskPending st a" "taskPending (emit ev st) a = taskPending st a"
  by (simp_all add: taskPending_def split: option.splits)

lemma storedKeys_simps [simp]:
  "storedKeys (st\<lparr>exitCode := e\<rparr>) = storedKeys st" "storedKeys (st\<lparr>cacheFile := c\<rparr>) = storedKeys st"
  by (simp_all add: storedKeys_def)

lemma taskPending_None: "taskPending st a = None \<Longrightarrow> pending (heap st ! a) = None"
  by (simp add: taskPending_def split: option.splits)

lemma runCount_setTask [simp]: "runCount (setTask a f st) b = runCount st b"
  by (simp add: runCount_def)

lemma keyCount_setTask [simp]: "keyCount (setTask a f st) b = keyCount st b"
  by (simp add: keyCount_def)

lemma runCount_emit [simp]:
  "runCount (emit e st) b = runCount st b + (if e = RunInvoked b then 1 else 0)"
  by (simp add: runCount_def)

lemma keyCount_emit [simp]:
  "keyCount (emit e st) b = keyCount st b + (if e = KeyInvoked b then 1 else 0)"
  by (simp add: keyCount_def)

lemma quiet_refl [simp]: "quiet A st st"
  by (simp add: quiet_def)

lemma quiet_counts:
  "quiet A st st' \<Longrightarrow> runCount st a \<le> runCount st' a \<and> keyCount st a \<le> keyCount st' a"
  by (simp add: quiet_def)

lemma quiet_members:
  "quiet A st st' \<Longrightarrow>
   m_cachedKey (members st' name) = m_cachedKey (members st name) \<and>
   (members st' name = members st name \<or>
    m_pending (members st name) = None \<and> m_pending (members st' name) = Some notCallable)"
  by (simp add: quiet_def)

lemma quiet_trans:
  assumes 1: "quiet A st st'" and 2: "quiet A st' st''"
  shows "quiet A st st''"
proof -
  have c: "\<forall>a. runCount st a \<le> runCount st'' a \<and> keyCount st a \<le> keyCount st'' a"
  proof
    fix a
    from quiet_counts[OF 1, of a] quiet_counts[OF 2, of a]
    show "runCount st a \<le> runCount st'' a \<and> keyCount st a \<le> keyCount st'' a" by simp
  qed
  have m: "\<forall>name. m_cachedKey (members st'' name) = m_cachedKey (members st name) \<and>
          (members st'' name = members st name \<or>
           m_pending (members st name) = None \<and> m_pending (members st'' name) = Some notCallable)"
  proof
    fix name
    from quiet_members[OF 1, of name] quiet_members[OF 2, of name]
    show "m_cachedKey (members st'' name) = m_cachedKey (members st name) \<and>
          (members st'' name = members st name \<or>
           m_pending (members st name) = None \<and> m_pending (members st'' name) = Some notCallable)"
      by auto
  qed
  show ?thesis using 1 2 c m unfolding quiet_def by (intro conjI allI impI; simp)
qed

lemma quiet_mono: "quiet A st st' \<Longrightarrow> A \<subseteq> B \<Longrightarrow> quiet B st st'"
  unfolding quiet_def by (intro conjI allI impI; (simp; fail | blast))

lemma quiet_emit:
  "e \<notin> RunInvoked ` (- A) \<Longrightarrow> e \<notin> KeyInvoked ` (- A) \<Longrightarrow>
   (\<And>a. e = KeyInvoked a \<Longrightarrow> keyFn (heap st ! a) \<noteq> None) \<Longrightarrow> quiet A st (emit e st)"
  by (auto simp: quiet_def)

lemma quiet_setTask:
  assumes "a \<in> A"
    and "\<And>t. run (f t) = run t \<and> keyFn (f t) = keyFn t \<and> label (f t) = label t"
    and "\<And>t. keyFn t = None \<Longrightarrow> cachedKey (f t) = cachedKey t"
    and "\<And>t. pending t \<noteq> None \<Longrightarrow> pending (f t) \<noteq> None"
    and "\<And>t. cachedKey t \<noteq> None \<Longrightarrow> cachedKey (f t) \<noteq> None"
    and "\<And>t. failed t \<Longrightarrow> failed (f t)"
  shows "quiet A st (setTask a f st)"
  using assms unfolding quiet_def by (auto simp: nth_setTask)

lemma quiet_setMember:
  assumes "\<And>m. m_cachedKey (f m) = m_cachedKey m"
    and "\<And>m. f m = m \<or> m_pending m = None \<and> m_pending (f m) = Some notCallable"
  shows "quiet A st (setMember name f st)"
  using assms unfolding quiet_def by simp

lemma runCommand_quiet: "runCommand env command message st = (st', r) \<Longrightarrow> quiet A st st'"
  by (auto simp: runCommand_def Let_def quiet_def runCount_def keyCount_def emit_def
           split: if_splits prod.splits proc_result.splits)

lemma mkdirp_quiet: "mkdirp env dir st = (st', r) \<Longrightarrow> quiet A st st'"
  by (auto simp: mkdirp_def quiet_def runCount_def keyCount_def split: prod.splits option.splits)

lemma invalidate_quiet: "quiet A st (invalidate file st)"
  by (simp add: invalidate_def quiet_def runCount_def keyCount_def)

lemma fold_invalidate_quiet: "quiet A st (fold invalidate files st)"
proof (induction files arbitrary: st)
  case Nil
  show ?case by simp
next
  case (Cons f fs)
  have "quiet A st (invalidate f st)" by (rule invalidate_quiet)
  moreover have "quiet A (invalidate f st) (fold invalidate fs (invalidate f st))" by (rule Cons.IH)
  ultimately show ?case by (auto intro: quiet_trans)
qed

lemma hashFiles_quiet: "hashFiles env targets st = (st', hs) \<Longrightarrow> quiet A st st'"
  by (auto simp: hashFiles_def Let_def quiet_def runCount_def keyCount_def)

lemma runRecipe_quiet: "runRecipe env lbl n recipe k st = (st', r) \<Longrightarrow> quiet A st st'"
proof (induction recipe arbitrary: k st)
  case Nil
  then show ?case by simp
next
  case (Cons command rest)
  obtain s1 r1 where c: "runCommand env command (lbl @ '' ('' @ show_nat k @ ''/'' @ show_nat n @ '')'') st = (s1, r1)"
    by (cases "runCommand env command (lbl @ '' ('' @ show_nat k @ ''/'' @ show_nat n @ '')'') st")
  have q1: "quiet A st s1" using c by (rule runCommand_quiet)
  show ?case
  proof (cases r1)
    case (Inl e)
    with Cons.prems c q1 show ?thesis by simp
  next
    case (Inr u)
    with Cons.prems c have "runRecipe env lbl n rest (k + 1) s1 = (st', r)" by simp
    then have "quiet A s1 st'" by (rule Cons.IH)
    with q1 show ?thesis by (rule quiet_trans)
  qed
qed

lemma andThen_quiet:
  assumes "andThen m f st = (st', r)"
    and "\<And>s1 r1. m st = (s1, r1) \<Longrightarrow> quiet A st s1"
    and "\<And>x s1 s2 r2. m st = (s1, Inr x) \<Longrightarrow> f x s1 = (s2, r2) \<Longrightarrow> quiet A s1 s2"
  shows "quiet A st st'"
proof (cases "m st")
  case (Pair s1 r1)
  show ?thesis
  proof (cases r1)
    case (Inl e)
    with Pair assms(1) have "st' = s1" by (simp add: andThen_def)
    with assms(2)[OF Pair] show ?thesis by simp
  next
    case (Inr x)
    with Pair assms(1) have "f x s1 = (st', r)" by (simp add: andThen_def)
    with assms(2)[OF Pair] assms(3) Pair Inr show ?thesis by (blast intro: quiet_trans)
  qed
qed

lemma runBody_quiet:
  assumes U: "\<And>requester s' r'. upd (runDeps (heap st ! a)) requester st = (s', r') \<Longrightarrow> quiet A st s'"
    and R: "runBody upd env a st = (st', r)"
  shows "quiet A st st'"
proof (cases "run (heap st ! a)")
  case (RuleRun targets prerequisites recipe)
  with R U show ?thesis
    by (auto simp: runBody_def runDeps_def ok_def Let_def
             elim!: andThen_quiet runRecipe_quiet intro!: fold_invalidate_quiet)
next
  case (CppRun objFile depsFile deps objCommand depsCommand)
  with R U show ?thesis
    by (auto simp: runBody_def runDeps_def ok_def Let_def
             elim!: andThen_quiet runCommand_quiet mkdirp_quiet intro!: invalidate_quiet)
next
  case (LinkRun exeFile deps linkCommand)
  with R U show ?thesis
    by (auto simp: runBody_def runDeps_def ok_def Let_def
             elim!: andThen_quiet runCommand_quiet mkdirp_quiet intro!: invalidate_quiet)
qed

lemma keyBody_quiet:
  assumes U: "\<And>requester s' r'. upd (kfDeps kf) requester st = (s', r') \<Longrightarrow> quiet A st s'"
    and R: "keyBody upd env a kf st = (st', r)"
  shows "quiet A st st'"
proof (cases kf)
  case (RuleKey targets prerequisites recipe)
  with R U show ?thesis
    by (auto simp: keyBody_def kfDeps_def Let_def split: prod.splits
             elim!: andThen_quiet hashFiles_quiet)
next
  case (CppKey objFile depsFile deps objCommand depsCommand)
  with R U show ?thesis
    by (auto simp: keyBody_def kfDeps_def Let_def split: prod.splits sum.splits
             elim!: andThen_quiet hashFiles_quiet)
next
  case (LinkKey exeFile deps linkCommand)
  with R U show ?thesis
    by (auto simp: keyBody_def kfDeps_def Let_def split: prod.splits
             elim!: andThen_quiet hashFiles_quiet)
qed

lemma quiet_static:
  assumes "quiet A st0 st"
  shows "run (heap st ! a) = run (heap st0 ! a)" "keyFn (heap st ! a) = keyFn (heap st0 ! a)"
    "label (heap st ! a) = label (heap st0 ! a)" "runDeps (heap st ! a) = runDeps (heap st0 ! a)"
    "keyDeps (heap st ! a) = keyDeps (heap st0 ! a)" "taskOf st t = taskOf st0 t"
  using assms by (simp_all add: quiet_def runDeps_def keyDeps_def taskOf_def)

lemma callRun_quiet:
  assumes H: "\<And>requester s s' r'. quiet A st0 s \<Longrightarrow>
                upd (runDeps (heap st0 ! a)) requester s = (s', r') \<Longrightarrow> quiet A s s'"
    and a: "a \<in> A" and q: "quiet A st0 st" and R: "callRun upd env a st = (st', r)"
  shows "quiet A st st'"
proof -
  let ?s = "emit (RunInvoked a) st"
  have e: "quiet A st ?s" using a by (auto intro: quiet_emit)
  have q': "quiet A st0 ?s" using q e by (rule quiet_trans)
  have "runDeps (heap ?s ! a) = runDeps (heap st0 ! a)" using q' by (rule quiet_static)
  then have "quiet A ?s st'"
    using R H[OF q'] by (auto simp: callRun_def elim!: runBody_quiet[rotated])
  with e show ?thesis by (rule quiet_trans)
qed

lemma callKey_quiet:
  assumes H: "\<And>requester s s' r'. quiet A st0 s \<Longrightarrow>
                upd (keyDeps (heap st0 ! a)) requester s = (s', r') \<Longrightarrow> quiet A s s'"
    and a: "a \<in> A" and q: "quiet A st0 st" and k: "keyFn (heap st ! a) = Some kf"
    and R: "callKey upd env a kf st = (st', r)"
  shows "quiet A st st'"
proof -
  let ?s = "emit (KeyInvoked a) st"
  have e: "quiet A st ?s" using a k by (auto intro: quiet_emit)
  have q': "quiet A st0 ?s" using q e by (rule quiet_trans)
  have "keyDeps (heap st ! a) = keyDeps (heap st0 ! a)" using q by (rule quiet_static)
  with k have "kfDeps kf = keyDeps (heap st0 ! a)" by (simp add: keyDeps_def)
  then have "quiet A ?s st'"
    using R H[OF q'] by (auto simp: callKey_def elim!: keyBody_quiet[rotated])
  with e show ?thesis by (rule quiet_trans)
qed

lemma quiet_setKey:
  "a \<in> A \<Longrightarrow> keyFn (heap st ! a) \<noteq> None \<Longrightarrow>
   quiet A st (setTask a (\<lambda>t. t\<lparr>cachedKey := Some k\<rparr>) st)"
  unfolding quiet_def by (auto simp: nth_setTask)

lemma onMiss_quiet:
  assumes H: "\<And>D requester s s' r'. D = runDeps (heap st0 ! a) \<or> D = keyDeps (heap st0 ! a) \<Longrightarrow>
                quiet A st0 s \<Longrightarrow> upd D requester s = (s', r') \<Longrightarrow> quiet A s s'"
    and a: "a \<in> A" and q: "quiet A st0 st" and R: "onMiss upd env a st = (st', r)"
  shows "quiet A st st'"
proof -
  have Hr: "\<And>requester s s' r'. quiet A st0 s \<Longrightarrow>
               upd (runDeps (heap st0 ! a)) requester s = (s', r') \<Longrightarrow> quiet A s s'"
    using H by blast
  have Hk: "\<And>requester s s' r'. quiet A st0 s \<Longrightarrow>
               upd (keyDeps (heap st0 ! a)) requester s = (s', r') \<Longrightarrow> quiet A s s'"
    using H by blast
  obtain s1 r1 where c: "callRun upd env a st = (s1, r1)" by (cases "callRun upd env a st")
  have q1: "quiet A st s1" by (rule callRun_quiet[OF Hr a q c])
  have q01: "quiet A st0 s1" using q q1 by (rule quiet_trans)
  show ?thesis
  proof (cases r1)
    case (Inl e)
    with R c q1 show ?thesis by (simp add: onMiss_def)
  next
    case (Inr u)
    show ?thesis
    proof (cases "keyFn (heap s1 ! a)")
      case None
      with R c Inr q1 show ?thesis by (simp add: onMiss_def)
    next
      case (Some kf)
      obtain s2 r2 where k: "callKey upd env a kf s1 = (s2, r2)" by (cases "callKey upd env a kf s1")
      have q2: "quiet A s1 s2" by (rule callKey_quiet[OF Hk a q01 Some k])
      have kf2: "keyFn (heap s2 ! a) \<noteq> None" using q2 Some by (simp add: quiet_def)
      show ?thesis
      proof (cases r2)
        case (Inl e)
        with R c Inr Some k have "st' = s2" by (simp add: onMiss_def)
        with q1 q2 show ?thesis by (auto intro: quiet_trans)
      next
        case (Inr key)
        with R c \<open>r1 = Inr u\<close> Some k
        have "st' = setTask a (\<lambda>t. t\<lparr>cachedKey := Some key\<rparr>) s2" by (simp add: onMiss_def)
        moreover have "quiet A s2 (setTask a (\<lambda>t. t\<lparr>cachedKey := Some key\<rparr>) s2)"
          using a kf2 by (rule quiet_setKey)
        ultimately show ?thesis using q1 q2 by (auto intro: quiet_trans)
      qed
    qed
  qed
qed

lemma tryBlock_quiet:
  assumes H: "\<And>D requester s s' r'. D = runDeps (heap st0 ! a) \<or> D = keyDeps (heap st0 ! a) \<Longrightarrow>
                quiet A st0 s \<Longrightarrow> upd D requester s = (s', r') \<Longrightarrow> quiet A s s'"
    and a: "a \<in> A" and q: "quiet A st0 st" and R: "tryBlock upd env a st = (st', r)"
  shows "quiet A st st'"
proof (cases "\<exists>ck kf. taskKey st a = Some ck \<and> keyFn (heap st ! a) = Some kf")
  case False
  then have "tryBlock upd env a st = onMiss upd env a st"
    by (auto simp: tryBlock_def split: option.splits)
  with R have m: "onMiss upd env a st = (st', r)" by simp
  show ?thesis by (rule onMiss_quiet[OF H a q m])
next
  case True
  then obtain ck kf where ck: "taskKey st a = Some ck" and kf: "keyFn (heap st ! a) = Some kf"
    by blast
  have Hk: "\<And>requester s s' r'. quiet A st0 s \<Longrightarrow>
               upd (keyDeps (heap st0 ! a)) requester s = (s', r') \<Longrightarrow> quiet A s s'"
    using H by blast
  obtain s1 r1 where k: "callKey upd env a kf st = (s1, r1)" by (cases "callKey upd env a kf st")
  have q1: "quiet A st s1" by (rule callKey_quiet[OF Hk a q kf k])
  have q01: "quiet A st0 s1" using q q1 by (rule quiet_trans)
  show ?thesis
  proof (cases r1)
    case (Inl e)
    with R ck kf k q1 show ?thesis by (simp add: tryBlock_def)
  next
    case (Inr key)
    show ?thesis
    proof (cases "map_option stringify (taskKey s1 a) = Some (stringify key)")
      case True
      with R ck kf k Inr q1 show ?thesis by (simp add: tryBlock_def)
    next
      case False
      with R ck kf k Inr have m: "onMiss upd env a s1 = (st', r)"
        by (auto simp: tryBlock_def split: if_splits)
      have "quiet A s1 st'" by (rule onMiss_quiet[OF H a q01 m])
      with q1 show ?thesis by (rule quiet_trans)
    qed
  qed
qed

lemma quiet_setFailed: "a \<in> A \<Longrightarrow> quiet A st (setTask a (\<lambda>t. t\<lparr>failed := True\<rparr>) st)"
  unfolding quiet_def by (auto simp: nth_setTask)

lemma quiet_setSrc: "a \<in> A \<Longrightarrow> quiet A st (setTask a (\<lambda>t. t\<lparr>src := v\<rparr>) st)"
  unfolding quiet_def by (auto simp: nth_setTask)

lemma quiet_setPending: "a \<in> A \<Longrightarrow> quiet A st (setTask a (\<lambda>t. t\<lparr>pending := Some p\<rparr>) st)"
  unfolding quiet_def by (auto simp: nth_setTask)

lemma launch_quiet:
  assumes H: "\<And>D requester s s' r'. D = runDeps (heap st0 ! a) \<or> D = keyDeps (heap st0 ! a) \<Longrightarrow>
                quiet A st0 s \<Longrightarrow> upd D requester s = (s', r') \<Longrightarrow> quiet A s s'"
    and a: "a \<in> A" and q: "quiet A st0 st" and R: "launch upd env a st = (st', p)"
  shows "quiet A st st'"
proof -
  obtain s1 r1 where t: "tryBlock upd env a st = (s1, r1)" by (cases "tryBlock upd env a st")
  have q1: "quiet A st s1" by (rule tryBlock_quiet[OF H a q t])
  show ?thesis
  proof (cases r1)
    case (Inr u)
    with R t q1 show ?thesis by (simp add: launch_def)
  next
    case (Inl e)
    show ?thesis
    proof (cases e)
      case (OtherError msg)
      with R t Inl q1 show ?thesis by (simp add: launch_def)
    next
      case (BuildError msg)
      let ?s2 = "emit (ConsoleError (''!!! FAILED ['' @ label (heap s1 ! a) @ ''] '' @ msg)) s1"
      have "st' = setTask a (\<lambda>t. t\<lparr>failed := True\<rparr>) ?s2"
        using R t Inl BuildError by (simp add: launch_def)
      moreover have "quiet A s1 ?s2" by (auto intro: quiet_emit)
      moreover have "quiet A ?s2 (setTask a (\<lambda>t. t\<lparr>failed := True\<rparr>) ?s2)"
        using a by (rule quiet_setFailed)
      ultimately show ?thesis using q1 by (auto intro: quiet_trans)
    qed
  qed
qed

lemma quiet_callMember:
  assumes "memberPending st name = None"
  shows "quiet A st (setMember name (\<lambda>m. m\<lparr>m_pending := Some notCallable\<rparr>)
                      (setMember name (\<lambda>m. m\<lparr>m_src := Some requester\<rparr>) st))"
proof -
  have "m_pending (members st name) = None"
    using assms by (simp add: memberPending_def split: option.splits)
  then show ?thesis by (simp add: quiet_def)
qed

lemma request_quiet:
  assumes H: "\<And>t b D requester s s' r'. taskOf st0 t = Some b \<Longrightarrow> b \<in> A \<Longrightarrow>
                D = runDeps (heap st0 ! b) \<or> D = keyDeps (heap st0 ! b) \<Longrightarrow>
                quiet A st0 s \<Longrightarrow> upd D requester s = (s', r') \<Longrightarrow> quiet A s s'"
    and LA: "\<forall>t b s. t \<in> set targets \<longrightarrow> taskOf st0 t = Some b \<longrightarrow> quiet A st0 s \<longrightarrow>
                taskPending s b = None \<longrightarrow> b \<in> A"
    and q: "quiet A st0 st"
    and R: "request upd env requester targets pend st = (st', r)"
  shows "quiet A st st'"
  using LA q R
proof (induction targets arbitrary: pend st)
  case Nil
  then show ?case by simp
next
  case (Cons target rest)
  have LA': "\<forall>t b s. t \<in> set rest \<longrightarrow> taskOf st0 t = Some b \<longrightarrow> quiet A st0 s \<longrightarrow>
                taskPending s b = None \<longrightarrow> b \<in> A"
    using Cons.prems(1) by simp
  have q: "quiet A st0 st" by fact
  have R: "request upd env requester (target # rest) pend st = (st', r)" by fact
  have reg: "taskOf st target = taskOf st0 target" using q by (rule quiet_static)
  show ?case
  proof (cases rule: lookupTask_cases[of st target])
    case none
    show ?thesis
    proof (cases "isAbstract target")
      case True
      with R none show ?thesis by simp
    next
      case False
      with R none obtain pend' where "request upd env requester rest pend' st = (st', r)" by simp
      then show ?thesis using Cons.IH[OF LA' q] by blast
    qed
  next
    case member
    show ?thesis
    proof (cases "memberPending st target")
      case (Some p)
      with R member have "request upd env requester rest (pend @ [p]) st = (st', r)" by simp
      then show ?thesis using Cons.IH[OF LA' q] by blast
    next
      case None
      let ?s2 = "setMember target (\<lambda>m. m\<lparr>m_pending := Some notCallable\<rparr>)
                   (setMember target (\<lambda>m. m\<lparr>m_src := Some requester\<rparr>) st)"
      have q2: "quiet A st ?s2" using None by (rule quiet_callMember)
      have q02: "quiet A st0 ?s2" using q q2 by (rule quiet_trans)
      have "request upd env requester rest (pend @ [notCallable]) ?s2 = (st', r)"
        using R member None by simp
      then have "quiet A ?s2 st'" using Cons.IH[OF LA' q02] by blast
      with q2 show ?thesis by (rule quiet_trans)
    qed
  next
    case (task b)
    show ?thesis
    proof (cases "taskPending st b")
      case (Some p)
      with R task have "request upd env requester rest (pend @ [p]) st = (st', r)" by simp
      then show ?thesis using Cons.IH[OF LA' q] by blast
    next
      case None
      have b0: "taskOf st0 target = Some b" using reg task by simp
      have bA: "b \<in> A" using Cons.prems(1) b0 q None by simp
      let ?s0 = "setTask b (\<lambda>t. t\<lparr>src := Some requester\<rparr>) st"
      obtain s1 p where l: "launch upd env b ?s0 = (s1, p)" by (cases "launch upd env b ?s0")
      let ?s2 = "setTask b (\<lambda>t. t\<lparr>pending := Some p\<rparr>) s1"
      have q0: "quiet A st ?s0" using bA by (rule quiet_setSrc)
      have q00: "quiet A st0 ?s0" using q q0 by (rule quiet_trans)
      have q1: "quiet A ?s0 s1" by (rule launch_quiet[OF H[OF b0 bA] bA q00 l])
      have q2: "quiet A s1 ?s2" using bA by (rule quiet_setPending)
      have q02: "quiet A st ?s2" by (rule quiet_trans[OF q0 quiet_trans[OF q1 q2]])
      have q002: "quiet A st0 ?s2" using q q02 by (rule quiet_trans)
      have "request upd env requester rest (pend @ [p]) ?s2 = (st', r)"
        using R task None l by simp
      then have "quiet A ?s2 st'" using Cons.IH[OF LA' q002] by blast
      with q02 show ?thesis by (rule quiet_trans)
    qed
  qed
qed

lemma updateTargetsBody_quiet:
  assumes H: "\<And>t b D requester s s' r'. taskOf st t = Some b \<Longrightarrow> b \<in> A \<Longrightarrow>
                D = runDeps (heap st ! b) \<or> D = keyDeps (heap st ! b) \<Longrightarrow>
                quiet A st s \<Longrightarrow> upd D requester s = (s', r') \<Longrightarrow> quiet A s s'"
    and LA: "\<And>t b s. t \<in> set targets \<Longrightarrow> taskOf st t = Some b \<Longrightarrow> quiet A st s \<Longrightarrow>
                taskPending s b = None \<Longrightarrow> b \<in> A"
    and R: "updateTargetsBody upd env targets requester st = (st', r)"
  shows "quiet A st st'"
proof -
  obtain s1 r1 where q: "request upd env requester targets [] st = (s1, r1)"
    by (cases "request upd env requester targets [] st")
  have LA': "\<forall>t b s. t \<in> set targets \<longrightarrow> taskOf st t = Some b \<longrightarrow> quiet A st s \<longrightarrow>
          taskPending s b = None \<longrightarrow> b \<in> A"
    using LA by blast
  have "quiet A st s1" by (rule request_quiet[OF H LA' quiet_refl q])
  moreover have "st' = s1"
    using R q by (auto simp: updateTargetsBody_def split: sum.splits)
  ultimately show ?thesis by simp
qed

text \<open>A task that has a promise, its own or the inherited one, is left alone by every later
  call.\<close>

lemma quiet_taskPending:
  assumes "quiet A st s" and "taskPending st a \<noteq> None"
  shows "taskPending s a \<noteq> None"
proof (cases "pending (heap st ! a)")
  case (Some p)
  with assms(1) have "pending (heap s ! a) \<noteq> None" by (simp add: quiet_def)
  then show ?thesis by (auto simp: taskPending_def split: option.splits)
next
  case None
  with assms(2) have "m_pending (prototype st) \<noteq> None" by (simp add: taskPending_def)
  with quiet_members[OF assms(1), of "''__proto__''"] have "m_pending (prototype s) \<noteq> None"
    by (auto simp: prototype_def)
  then show ?thesis by (auto simp: taskPending_def split: option.splits)
qed

lemma updateTargets_taskPending_quiet:
  "updateTargets depth env targets requester st = (st', r) \<Longrightarrow>
   quiet {a. taskPending st a = None} st st'"
proof (induction depth arbitrary: targets requester st st' r)
  case 0
  then show ?case by simp
next
  case (Suc depth)
  let ?A = "{a. taskPending st a = None}"
  have R: "updateTargetsBody (updateTargets depth env) env targets requester st = (st', r)"
    using Suc.prems by simp
  show ?case
  proof (rule updateTargetsBody_quiet[OF _ _ R])
    fix t b D rq s s' r'
    assume q: "quiet ?A st s" and u: "updateTargets depth env D rq s = (s', r')"
    have "quiet {a. taskPending s a = None} s s'" using u by (rule Suc.IH)
    moreover have "{a. taskPending s a = None} \<subseteq> ?A"
    proof
      fix x
      assume "x \<in> {a. taskPending s a = None}"
      then have n: "taskPending s x = None" by simp
      show "x \<in> ?A" using quiet_taskPending[OF q, of x] n by (cases "taskPending st x") auto
    qed
    ultimately show "quiet ?A s s'" by (rule quiet_mono)
  next
    fix t b s
    assume q: "quiet ?A st s" and n: "taskPending s b = None"
    show "b \<in> ?A" using quiet_taskPending[OF q, of b] n by (cases "taskPending st b") auto
  qed
qed

lemma updateTargets_pending_quiet:
  assumes "updateTargets depth env targets requester st = (st', r)"
  shows "quiet {a. pending (heap st ! a) = None} st st'"
proof -
  have "quiet {a. taskPending st a = None} st st'"
    using assms by (rule updateTargets_taskPending_quiet)
  moreover have "{a. taskPending st a = None} \<subseteq> {a. pending (heap st ! a) = None}"
    by (auto dest: taskPending_None)
  ultimately show ?thesis by (rule quiet_mono)
qed

lemma rankedD:
  assumes "ranked rank st" and "taskOf st t = Some a"
  shows "a < length (heap st)"
    and "\<And>d b. d \<in> set (runDeps (heap st ! a)) \<union> set (keyDeps (heap st ! a)) \<Longrightarrow>
           taskOf st d = Some b \<Longrightarrow> rank b < rank a"
proof -
  have "(t, a) \<in> set (tasks st)" using assms(2) by (auto simp: taskOf_def dest: map_of_SomeD)
  with assms(1) have *: "a < length (heap st) \<and>
     list_all (\<lambda>d. case taskOf st d of None \<Rightarrow> True | Some b \<Rightarrow> rank b < rank a)
       (runDeps (heap st ! a) @ keyDeps (heap st ! a))"
    by (auto simp: ranked_def list_all_iff)
  then show "a < length (heap st)" by simp
  fix d b
  assume "taskOf st d = Some b"
  assume "d \<in> set (runDeps (heap st ! a)) \<union> set (keyDeps (heap st ! a))"
  then have "case taskOf st d of None \<Rightarrow> True | Some b \<Rightarrow> rank b < rank a"
    using * by (auto simp: list_all_iff)
  then show "rank b < rank a" using \<open>taskOf st d = Some b\<close> by simp
qed

lemma ranked_quiet: "quiet A st st' \<Longrightarrow> ranked rank st \<Longrightarrow> ranked rank st'"
  by (simp add: ranked_def quiet_def runDeps_def keyDeps_def taskOf_def)

text \<open>In a ranked registry a call that asks for targets of rank below \<open>n\<close> leaves every task
  of rank \<open>n\<close> or more alone.\<close>

lemma updateTargets_rank_quiet:
  "ranked rank st \<Longrightarrow> (\<And>t b. t \<in> set targets \<Longrightarrow> taskOf st t = Some b \<Longrightarrow> rank b < n) \<Longrightarrow>
   updateTargets depth env targets requester st = (st', r) \<Longrightarrow>
   quiet {a. rank a < n} st st'"
proof (induction depth arbitrary: targets requester st st' r n)
  case 0
  then show ?case by simp
next
  case (Suc depth)
  let ?A = "{a. rank a < n}"
  have R: "updateTargetsBody (updateTargets depth env) env targets requester st = (st', r)"
    using Suc.prems(3) by simp
  show ?case
  proof (rule updateTargetsBody_quiet[OF _ _ R])
    fix t b D rq s s' r'
    assume b: "taskOf st t = Some b" and bA: "b \<in> ?A"
      and D: "D = runDeps (heap st ! b) \<or> D = keyDeps (heap st ! b)"
      and q: "quiet ?A st s" and u: "updateTargets depth env D rq s = (s', r')"
    have rs: "ranked rank s" using q Suc.prems(1) by (rule ranked_quiet)
    have "\<And>d c. d \<in> set D \<Longrightarrow> taskOf s d = Some c \<Longrightarrow> rank c < rank b"
      using rankedD(2)[OF Suc.prems(1) b] D quiet_static(6)[OF q] by auto
    then have "quiet {a. rank a < rank b} s s'" using Suc.IH[OF rs _ u] by blast
    moreover have "{a. rank a < rank b} \<subseteq> ?A" using bA by auto
    ultimately show "quiet ?A s s'" by (rule quiet_mono)
  next
    fix t b s
    assume "t \<in> set targets" "taskOf st t = Some b"
    then show "b \<in> ?A" using Suc.prems(2) by simp
  qed
qed

section \<open>The course of one task\<close>

lemma andThen_split:
  assumes "andThen m f st = (st', r)"
    and "\<And>x s1 s2 r2. f x s1 = (s2, r2) \<Longrightarrow> quiet A s1 s2"
  shows "\<exists>s1 r1. m st = (s1, r1) \<and> quiet A s1 st'"
proof (cases "m st")
  case (Pair s1 r1)
  show ?thesis
  proof (cases r1)
    case (Inl e)
    with Pair assms(1) show ?thesis by (simp add: andThen_def)
  next
    case (Inr x)
    with Pair assms(1) have "f x s1 = (st', r)" by (simp add: andThen_def)
    with assms(2) Pair show ?thesis by blast
  qed
qed

lemma runBody_split:
  assumes R: "runBody upd env a st = (st', r)"
  shows "\<exists>requester s1 r1. upd (runDeps (heap st ! a)) requester st = (s1, r1) \<and> quiet {} s1 st'"
proof (cases "run (heap st ! a)")
  case (RuleRun targets prerequisites recipe)
  with R have "andThen (upd prerequisites (label (heap st ! a)))
      (\<lambda>_. andThen (runRecipe env (label (heap st ! a)) (length recipe) recipe 1)
              (\<lambda>_ s. ok (fold invalidate targets s))) st = (st', r)"
    by (simp add: runBody_def Let_def)
  then have "\<exists>s1 r1. upd prerequisites (label (heap st ! a)) st = (s1, r1) \<and> quiet {} s1 st'"
    by (rule andThen_split)
       (auto simp: ok_def elim!: andThen_quiet runRecipe_quiet intro!: fold_invalidate_quiet)
  with RuleRun show ?thesis by (auto simp: runDeps_def)
next
  case (CppRun objFile depsFile deps objCommand depsCommand)
  with R have "andThen (upd deps (label (heap st ! a))) (\<lambda>_.
             andThen (\<lambda>s. ok (invalidate objFile s)) (\<lambda>_.
             andThen (mkdirp env (dirname env objFile)) (\<lambda>_.
             andThen (runCommand env objCommand (label (heap st ! a) @ '': compile'')) (\<lambda>_.
             andThen (\<lambda>s. ok (invalidate depsFile s)) (\<lambda>_.
             andThen (mkdirp env (dirname env depsFile)) (\<lambda>_.
             andThen (runCommand env depsCommand (label (heap st ! a) @ '': prerequisites'')) (\<lambda>_ s.
               (s, assertNontargets s (loadDeps env depsFile deps (world s)) (label (heap st ! a)))))))))) st
         = (st', r)"
    by (simp add: runBody_def Let_def)
  then have "\<exists>s1 r1. upd deps (label (heap st ! a)) st = (s1, r1) \<and> quiet {} s1 st'"
    by (rule andThen_split)
       (auto simp: ok_def elim!: andThen_quiet runCommand_quiet mkdirp_quiet intro!: invalidate_quiet)
  with CppRun show ?thesis by (auto simp: runDeps_def)
next
  case (LinkRun exeFile deps linkCommand)
  with R have "andThen (upd deps (label (heap st ! a))) (\<lambda>_.
             andThen (\<lambda>s. ok (invalidate exeFile s)) (\<lambda>_.
             andThen (mkdirp env (dirname env exeFile)) (\<lambda>_.
               runCommand env linkCommand (label (heap st ! a) @ '': link'')))) st = (st', r)"
    by (simp add: runBody_def Let_def)
  then have "\<exists>s1 r1. upd deps (label (heap st ! a)) st = (s1, r1) \<and> quiet {} s1 st'"
    by (rule andThen_split)
       (auto simp: ok_def elim!: andThen_quiet runCommand_quiet mkdirp_quiet intro!: invalidate_quiet)
  with LinkRun show ?thesis by (auto simp: runDeps_def)
qed

lemma keyBody_split:
  assumes R: "keyBody upd env a kf st = (st', r)"
  shows "\<exists>requester s1 r1. upd (kfDeps kf) requester st = (s1, r1) \<and> quiet {} s1 st'"
proof -
  obtain f where "keyBody upd env a kf st = andThen (upd (kfDeps kf) (label (heap st ! a) @ '' (keyFn)'')) f st"
    and "\<And>x s1 s2 r2. f x s1 = (s2, r2) \<Longrightarrow> quiet {} s1 s2"
  proof (cases kf)
    case (RuleKey targets prerequisites recipe)
    show ?thesis
      by (rule that[of "\<lambda>_ s. case hashFiles env (targets @ prerequisites) s of
                 (s', hashes) \<Rightarrow>
                   (s', Inr (JArr (map (\<lambda>command. JArr (map JStr command)) recipe
                                   @ map (keyEntry s') hashes)))"])
         (auto simp: RuleKey keyBody_def kfDeps_def Let_def split: prod.splits elim!: hashFiles_quiet)
  next
    case (CppKey objFile depsFile deps objCommand depsCommand)
    show ?thesis
      by (rule that[of "\<lambda>_ s.
               let extraDepends = loadDeps env depsFile deps (world s)
               in case assertNontargets s extraDepends (label (heap st ! a)) of
                    Inl e \<Rightarrow> (s, Inl e)
                  | Inr _ \<Rightarrow>
                      (case hashFiles env ([objFile, depsFile] @ deps @ extraDepends) s of
                         (s', hashes) \<Rightarrow>
                           (s', Inr (JArr ([JArr (map JStr objCommand), JArr (map JStr depsCommand)]
                                           @ map (keyEntry s') hashes))))"])
         (auto simp: CppKey keyBody_def kfDeps_def Let_def split: prod.splits sum.splits
               elim!: hashFiles_quiet)
  next
    case (LinkKey exeFile deps linkCommand)
    show ?thesis
      by (rule that[of "\<lambda>_ s. case hashFiles env (exeFile # deps) s of
                 (s', hashes) \<Rightarrow>
                   (s', Inr (JArr (JArr (map JStr linkCommand) # map (keyEntry s') hashes)))"])
         (auto simp: LinkKey keyBody_def kfDeps_def Let_def split: prod.splits elim!: hashFiles_quiet)
  qed
  with R show ?thesis by (metis andThen_split)
qed

lemma neutralD:
  assumes "neutral R"
  shows "R s s" and "R s s' \<Longrightarrow> R s' s'' \<Longrightarrow> R s s''" and "quiet {} s s' \<Longrightarrow> R s s'"
    and "R s s' \<Longrightarrow> quiet UNIV s s'"
proof -
  from assms have 1: "\<forall>s. R s s" and 2: "\<forall>s s' s''. R s s' \<longrightarrow> R s' s'' \<longrightarrow> R s s''"
    and 3: "\<forall>s s'. quiet {} s s' \<longrightarrow> R s s'" and 4: "\<forall>s s'. R s s' \<longrightarrow> quiet UNIV s s'"
    by (simp_all add: neutral_def)
  show "R s s" using 1 by simp
  show "R s s' \<Longrightarrow> R s' s'' \<Longrightarrow> R s s''" by (rule 2[rule_format])
  show "quiet {} s s' \<Longrightarrow> R s s'" using 3 by simp
  show "R s s' \<Longrightarrow> quiet UNIV s s'" using 4 by simp
qed

lemma quiet_UNIV_emitRun: "quiet UNIV st (emit (RunInvoked b) st)"
  by (rule quiet_emit) auto

lemma quiet_UNIV_emitKey:
  "keyFn (heap st ! b) \<noteq> None \<Longrightarrow> quiet UNIV st (emit (KeyInvoked b) st)"
  by (rule quiet_emit) auto

lemma callRun_shape:
  assumes N: "neutral R"
    and H: "\<And>requester s s' r'. quiet UNIV st0 s \<Longrightarrow>
              upd (runDeps (heap st0 ! b)) requester s = (s', r') \<Longrightarrow> R s s'"
    and q: "quiet UNIV st0 st" and C: "callRun upd env b st = (st', r)"
  shows "R (emit (RunInvoked b) st) st'"
proof -
  let ?s = "emit (RunInvoked b) st"
  have qe: "quiet UNIV st0 ?s" using q quiet_UNIV_emitRun by (rule quiet_trans)
  have rb: "runBody upd env b ?s = (st', r)" using C by (simp add: callRun_def)
  obtain rq s1 r1 where u: "upd (runDeps (heap ?s ! b)) rq ?s = (s1, r1)"
    and i: "quiet {} s1 st'"
    using runBody_split[OF rb] by blast
  have "runDeps (heap ?s ! b) = runDeps (heap st0 ! b)" using qe by (rule quiet_static)
  with u have "R ?s s1" using H[OF qe] by simp
  moreover have "R s1 st'" using N i by (rule neutralD(3))
  ultimately show ?thesis by (rule neutralD(2)[OF N])
qed

lemma callKey_shape:
  assumes N: "neutral R"
    and H: "\<And>requester s s' r'. quiet UNIV st0 s \<Longrightarrow>
              upd (keyDeps (heap st0 ! b)) requester s = (s', r') \<Longrightarrow> R s s'"
    and q: "quiet UNIV st0 st" and k: "keyFn (heap st ! b) = Some kf"
    and C: "callKey upd env b kf st = (st', r)"
  shows "R (emit (KeyInvoked b) st) st'"
proof -
  let ?s = "emit (KeyInvoked b) st"
  have "keyFn (heap st ! b) \<noteq> None" using k by simp
  then have "quiet UNIV st ?s" by (rule quiet_UNIV_emitKey)
  with q have qe: "quiet UNIV st0 ?s" by (rule quiet_trans)
  have kb: "keyBody upd env b kf ?s = (st', r)" using C by (simp add: callKey_def)
  obtain rq s1 r1 where u: "upd (kfDeps kf) rq ?s = (s1, r1)" and i: "quiet {} s1 st'"
    using keyBody_split[OF kb] by blast
  have "keyDeps (heap st ! b) = keyDeps (heap st0 ! b)" using q by (rule quiet_static)
  with k have "kfDeps kf = keyDeps (heap st0 ! b)" by (simp add: keyDeps_def)
  with u have "R ?s s1" using H[OF qe] by simp
  moreover have "R s1 st'" using N i by (rule neutralD(3))
  ultimately show ?thesis by (rule neutralD(2)[OF N])
qed

lemma onMiss_shape:
  assumes N: "neutral R"
    and H: "\<And>D requester s s' r'. D = runDeps (heap st0 ! b) \<or> D = keyDeps (heap st0 ! b) \<Longrightarrow>
              quiet UNIV st0 s \<Longrightarrow> upd D requester s = (s', r') \<Longrightarrow> R s s'"
    and q: "quiet UNIV st0 st" and M: "onMiss upd env b st = (st', r)"
  shows "missShape R b st st' r"
proof -
  have Hr: "\<And>requester s s' r'. quiet UNIV st0 s \<Longrightarrow>
               upd (runDeps (heap st0 ! b)) requester s = (s', r') \<Longrightarrow> R s s'"
    using H by blast
  have Hk: "\<And>requester s s' r'. quiet UNIV st0 s \<Longrightarrow>
               upd (keyDeps (heap st0 ! b)) requester s = (s', r') \<Longrightarrow> R s s'"
    using H by blast
  obtain s1 r1 where c: "callRun upd env b st = (s1, r1)" by (cases "callRun upd env b st")
  have R1: "R (emit (RunInvoked b) st) s1" by (rule callRun_shape[OF N Hr q c])
  have q1: "quiet UNIV st0 s1"
    by (rule quiet_trans[OF q quiet_trans[OF quiet_UNIV_emitRun neutralD(4)[OF N R1]]])
  show ?thesis
  proof (cases r1)
    case (Inl e)
    with M c have "st' = s1" by (simp add: onMiss_def)
    with R1 show ?thesis unfolding missShape_def by (intro exI[of _ s1]) simp
  next
    case (Inr u)
    show ?thesis
    proof (cases "keyFn (heap s1 ! b)")
      case None
      with M c Inr have "st' = s1" by (simp add: onMiss_def)
      with R1 show ?thesis unfolding missShape_def by (intro exI[of _ s1]) simp
    next
      case (Some kf)
      obtain s2 r2 where k: "callKey upd env b kf s1 = (s2, r2)" by (cases "callKey upd env b kf s1")
      have R2: "R (emit (KeyInvoked b) s1) s2" by (rule callKey_shape[OF N Hk q1 Some k])
      show ?thesis
      proof (cases r2)
        case (Inl e)
        with M c Inr Some k have e: "st' = s2" by (simp add: onMiss_def)
        show ?thesis unfolding missShape_def
          by (rule exI[of _ s1], rule conjI[OF R1], rule disjI2, rule exI[of _ s2],
              rule conjI[OF R2], simp add: e)
      next
        case (Inr key)
        with M c \<open>r1 = Inr u\<close> Some k
        have e: "st' = setTask b (\<lambda>t. t\<lparr>cachedKey := Some key\<rparr>) s2 \<and> r = Inr ()"
          by (simp add: onMiss_def)
        show ?thesis unfolding missShape_def
          by (rule exI[of _ s1], rule conjI[OF R1], rule disjI2, rule exI[of _ s2],
              rule conjI[OF R2], rule disjI2, simp add: e, rule exI[of _ key], simp)
      qed
    qed
  qed
qed

lemma tryBlock_shape:
  assumes N: "neutral R"
    and H: "\<And>D requester s s' r'. D = runDeps (heap st0 ! b) \<or> D = keyDeps (heap st0 ! b) \<Longrightarrow>
              quiet UNIV st0 s \<Longrightarrow> upd D requester s = (s', r') \<Longrightarrow> R s s'"
    and q: "quiet UNIV st0 st" and T: "tryBlock upd env b st = (st', r)"
  shows "tryShape R b st st' r"
proof (cases "\<exists>ck kf. taskKey st b = Some ck \<and> keyFn (heap st ! b) = Some kf")
  case False
  then have "tryBlock upd env b st = onMiss upd env b st"
    by (auto simp: tryBlock_def split: option.splits)
  with T have m: "onMiss upd env b st = (st', r)" by simp
  show ?thesis unfolding tryShape_def
    using onMiss_shape[OF N H q m] by simp
next
  case True
  then obtain ck kf where ck: "taskKey st b = Some ck" and kf: "keyFn (heap st ! b) = Some kf"
    by blast
  have Hk: "\<And>requester s s' r'. quiet UNIV st0 s \<Longrightarrow>
               upd (keyDeps (heap st0 ! b)) requester s = (s', r') \<Longrightarrow> R s s'"
    using H by blast
  obtain s1 r1 where k: "callKey upd env b kf st = (s1, r1)" by (cases "callKey upd env b kf st")
  have R1: "R (emit (KeyInvoked b) st) s1" by (rule callKey_shape[OF N Hk q kf k])
  have kn: "keyFn (heap st ! b) \<noteq> None" using kf by simp
  have q1: "quiet UNIV st0 s1"
    by (rule quiet_trans[OF q quiet_trans[OF quiet_UNIV_emitKey[OF kn] neutralD(4)[OF N R1]]])
  show ?thesis
  proof (cases "\<exists>key. r1 = Inr key \<and> map_option stringify (taskKey s1 b) \<noteq> Some (stringify key)")
    case False
    with T ck kf k have "st' = s1" by (auto simp: tryBlock_def split: sum.splits if_splits)
    with R1 show ?thesis unfolding tryShape_def by (intro disjI2 exI[of _ s1]) simp
  next
    case True
    with T ck kf k have m: "onMiss upd env b s1 = (st', r)"
      by (auto simp: tryBlock_def split: if_splits)
    show ?thesis unfolding tryShape_def
      using onMiss_shape[OF N H q1 m] R1 by (intro disjI2 exI[of _ s1]) simp
  qed
qed

section \<open>Every task of a ranked registry is settled once\<close>

lemma step_compose:
  assumes "untouched st s1 a \<or> settledOnce st s1 a" and "untouched s1 s2 a \<or> settledOnce s1 s2 a"
  shows "untouched st s2 a \<or> settledOnce st s2 a"
  using assms unfolding untouched_def settledOnce_def by auto

lemma once_refl [simp]: "once st st"
  by (simp add: once_def untouched_def)

lemma once_trans: "once st s1 \<Longrightarrow> once s1 s2 \<Longrightarrow> once st s2"
  unfolding once_def using step_compose by blast

lemma quiet_empty_once: "quiet {} s s' \<Longrightarrow> once s s'"
  by (simp add: quiet_def once_def untouched_def)

lemma quiet_untouched: "quiet A s s' \<Longrightarrow> a \<notin> A \<Longrightarrow> untouched s s' a"
  by (simp add: quiet_def untouched_def)

lemma progress_trans:
  assumes "progress b j s s'" and "progress b k s' s''"
  shows "progress b (j + k) s s''"
proof -
  have "\<And>a. a \<noteq> b \<Longrightarrow> untouched s s'' a \<or> settledOnce s s'' a"
    using assms step_compose unfolding progress_def by blast
  then show ?thesis using assms unfolding progress_def by simp
qed

lemma progress_once: "once s s' \<Longrightarrow> untouched s s' b \<Longrightarrow> progress b 0 s s'"
  by (simp add: progress_def once_def untouched_def)

lemma progress_emitKey: "progress b 0 s (emit (KeyInvoked b) s)"
  by (simp add: progress_def untouched_def)

lemma progress_emitRun: "progress b 1 s (emit (RunInvoked b) s)"
  by (simp add: progress_def untouched_def)

lemma missShape_progress:
  assumes R: "\<forall>s s'. R s s' \<longrightarrow> once s s' \<and> untouched s s' b"
    and M: "missShape R b st st' r"
  shows "\<exists>s''. progress b 1 st s'' \<and>
           (st' = s'' \<or> (r = Inr () \<and> (\<exists>key. st' = setTask b (\<lambda>t. t\<lparr>cachedKey := Some key\<rparr>) s'')))"
proof -
  from M obtain sb where sb: "R (emit (RunInvoked b) st) sb"
    and rest: "st' = sb \<or> (\<exists>sc. R (emit (KeyInvoked b) sb) sc \<and>
            (st' = sc \<or> (r = Inr () \<and> (\<exists>key. st' = setTask b (\<lambda>t. t\<lparr>cachedKey := Some key\<rparr>) sc))))"
    unfolding missShape_def by (elim exE conjE)
  have "progress b 0 (emit (RunInvoked b) st) sb" using R sb by (simp add: progress_once)
  from progress_trans[OF progress_emitRun this] have p1: "progress b 1 st sb" by simp
  from rest show ?thesis
  proof
    assume "st' = sb"
    with p1 show ?thesis by (intro exI[of _ sb]) simp
  next
    assume "\<exists>sc. R (emit (KeyInvoked b) sb) sc \<and>
            (st' = sc \<or> (r = Inr () \<and> (\<exists>key. st' = setTask b (\<lambda>t. t\<lparr>cachedKey := Some key\<rparr>) sc)))"
    then obtain sc where sc: "R (emit (KeyInvoked b) sb) sc"
      and fin: "st' = sc \<or> (r = Inr () \<and> (\<exists>key. st' = setTask b (\<lambda>t. t\<lparr>cachedKey := Some key\<rparr>) sc))"
      by (elim exE conjE)
    have "progress b 0 (emit (KeyInvoked b) sb) sc" using R sc by (simp add: progress_once)
    from progress_trans[OF progress_emitKey this] have "progress b 0 sb sc" by simp
    from progress_trans[OF p1 this] have "progress b 1 st sc" by simp
    with fin show ?thesis by (intro exI[of _ sc]) simp
  qed
qed

lemma tryShape_progress:
  assumes R: "\<forall>s s'. R s s' \<longrightarrow> once s s' \<and> untouched s s' b"
    and T: "tryShape R b st st' r"
  shows "\<exists>k s''. k \<le> 1 \<and> progress b k st s'' \<and>
           (st' = s'' \<or> (r = Inr () \<and> (\<exists>key. st' = setTask b (\<lambda>t. t\<lparr>cachedKey := Some key\<rparr>) s'')))"
proof -
  from T have "missShape R b st st' r \<or>
     (\<exists>sa. R (emit (KeyInvoked b) st) sa \<and> (st' = sa \<or> missShape R b sa st' r))"
    by (simp add: tryShape_def)
  then show ?thesis
  proof
    assume "missShape R b st st' r"
    from missShape_progress[OF R this] show ?thesis by (intro exI[of _ 1]) simp
  next
    assume "\<exists>sa. R (emit (KeyInvoked b) st) sa \<and> (st' = sa \<or> missShape R b sa st' r)"
    then obtain sa where sa: "R (emit (KeyInvoked b) st) sa"
      and rest: "st' = sa \<or> missShape R b sa st' r" by (elim exE conjE)
    have "progress b 0 (emit (KeyInvoked b) st) sa" using R sa by (simp add: progress_once)
    from progress_trans[OF progress_emitKey this] have p0: "progress b 0 st sa" by simp
    from rest show ?thesis
    proof
      assume "st' = sa"
      with p0 show ?thesis by (intro exI[of _ 0] exI[of _ sa]) simp
    next
      assume "missShape R b sa st' r"
      from missShape_progress[OF R this] obtain s'' where p1: "progress b 1 sa s''"
        and fin: "st' = s'' \<or> (r = Inr () \<and> (\<exists>key. st' = setTask b (\<lambda>t. t\<lparr>cachedKey := Some key\<rparr>) s''))"
        by (elim exE conjE)
      have "progress b 1 st s''" using progress_trans[OF p0 p1] by simp
      with fin show ?thesis by (intro exI[of _ 1] exI[of _ s'']) simp
    qed
  qed
qed

lemma finish_once:
  assumes pn: "pending (heap st ! b) = None" and bl: "b < length (heap s'')"
    and pr: "progress b k (setTask b (\<lambda>t. t\<lparr>src := v\<rparr>) st) s''" and k: "k \<le> 1"
    and s1': "s1' = s'' \<or> (r1 = Inr () \<and> (\<exists>key. s1' = setTask b (\<lambda>t. t\<lparr>cachedKey := Some key\<rparr>) s''))"
    and s1: "s1 = s1' \<or>
             (r1 \<noteq> Inr () \<and> (\<exists>m. s1 = setTask b (\<lambda>t. t\<lparr>failed := True\<rparr>) (emit (ConsoleError m) s1')))"
  shows "once st (setTask b (\<lambda>t. t\<lparr>pending := Some p\<rparr>) s1)"
proof -
  let ?s0 = "setTask b (\<lambda>t. t\<lparr>src := v\<rparr>) st"
  let ?s2 = "setTask b (\<lambda>t. t\<lparr>pending := Some p\<rparr>) s1"
  have len: "length (heap s1) = length (heap s'')" using s1 s1' by auto
  have others: "untouched st ?s2 a \<or> settledOnce st ?s2 a" if "a \<noteq> b" for a
  proof -
    have u0: "untouched st ?s0 a" using that by (simp add: untouched_def nth_setTask)
    have u1: "untouched ?s0 s'' a \<or> settledOnce ?s0 s'' a" using pr that by (simp add: progress_def)
    have u2: "untouched s'' ?s2 a" using s1 s1' that by (auto simp: untouched_def nth_setTask)
    from step_compose[OF disjI1[OF u0] u1] have "untouched st s'' a \<or> settledOnce st s'' a" .
    from step_compose[OF this disjI1[OF u2]] show ?thesis .
  qed
  have pb: "pending (heap ?s2 ! b) = Some p" using bl len by (simp add: nth_setTask)
  have cnt: "runCount ?s2 b = runCount st b + k" using pr s1 s1' by (auto simp: progress_def)
  have fl: "failed (heap s'' ! b) = failed (heap st ! b)"
    and ck: "cachedKey (heap s'' ! b) = cachedKey (heap st ! b)"
    using pr by (auto simp: progress_def nth_setTask split: if_splits)
  have ckf: "cachedKey (heap ?s2 ! b) = cachedKey (heap st ! b)"
    if "failed (heap ?s2 ! b)" "\<not> failed (heap st ! b)"
    using that s1 s1' fl ck bl by (auto simp: nth_setTask split: if_splits)
  have sb: "settledOnce st ?s2 b"
    unfolding settledOnce_def using pn pb cnt k ckf by simp
  show ?thesis unfolding once_def
  proof
    fix a
    show "untouched st ?s2 a \<or> settledOnce st ?s2 a"
    proof (cases "a = b")
      case True
      with sb show ?thesis by simp
    next
      case False
      then show ?thesis by (rule others)
    qed
  qed
qed

lemma launch_once:
  fixes env :: "'w env" and st :: "'w maek"
  assumes IH: "\<forall>(s :: 'w maek) targets requester s' r.
                 ranked rank s \<longrightarrow> updateTargets d env targets requester s = (s', r) \<longrightarrow> once s s'"
    and rk: "ranked rank st" and b: "taskOf st t = Some b" and pn: "pending (heap st ! b) = None"
    and l: "launch (updateTargets d env) env b (setTask b (\<lambda>t. t\<lparr>src := Some rq\<rparr>) st) = (s1, p)"
  shows "once st (setTask b (\<lambda>t. t\<lparr>pending := Some p\<rparr>) s1)"
    and "quiet UNIV st (setTask b (\<lambda>t. t\<lparr>pending := Some p\<rparr>) s1)"
proof -
  let ?s0 = "setTask b (\<lambda>t. t\<lparr>src := Some rq\<rparr>) st"
  let ?B = "{a. rank a < rank b}"
  define R where "R = (\<lambda>(s :: 'w maek) s'. once s s' \<and> quiet ?B s s')"
  have N: "neutral R"
    unfolding neutral_def R_def
    by (intro conjI allI impI)
       (auto intro: once_trans quiet_trans quiet_empty_once quiet_mono[of "{}"] quiet_mono[of ?B _ _ UNIV])
  have q0: "quiet UNIV st ?s0" by (rule quiet_setSrc) simp
  have H: "R s s'"
    if D: "D = runDeps (heap st ! b) \<or> D = keyDeps (heap st ! b)"
      and q: "quiet UNIV st s" and u: "updateTargets d env D requester s = (s', r')"
    for D requester s s' r'
  proof -
    have rs: "ranked rank s" using q rk by (rule ranked_quiet)
    have low: "\<forall>t c. t \<in> set D \<longrightarrow> taskOf s t = Some c \<longrightarrow> rank c < rank b"
      using rankedD(2)[OF rk b] D quiet_static(6)[OF q] by auto
    have "once s s'" using IH rs u by blast
    moreover have "quiet ?B s s'"
      using low by (intro updateTargets_rank_quiet[OF rs _ u]) blast
    ultimately show ?thesis by (simp add: R_def)
  qed
  obtain s1' r1 where t: "tryBlock (updateTargets d env) env b ?s0 = (s1', r1)"
    by (cases "tryBlock (updateTargets d env) env b ?s0")
  have sh: "tryShape R b ?s0 s1' r1" by (rule tryBlock_shape[OF N H q0 t])
  have RU: "\<forall>s s'. R s s' \<longrightarrow> once s s' \<and> untouched s s' b"
    by (auto simp: R_def intro: quiet_untouched)
  from tryShape_progress[OF RU sh] obtain k s'' where k: "k \<le> 1"
    and pr: "progress b k ?s0 s''"
    and s1': "s1' = s'' \<or> (r1 = Inr () \<and> (\<exists>key. s1' = setTask b (\<lambda>t. t\<lparr>cachedKey := Some key\<rparr>) s''))"
    by (elim exE conjE)
  have s1: "s1 = s1' \<or>
        (r1 \<noteq> Inr () \<and> (\<exists>m. s1 = setTask b (\<lambda>t. t\<lparr>failed := True\<rparr>) (emit (ConsoleError m) s1')))"
    using l t by (auto simp: launch_def split: sum.splits error.splits)
  have qL: "quiet UNIV ?s0 s1"
  proof (rule launch_quiet[OF _ _ quiet_refl l])
    fix D requester s s' r'
    assume "updateTargets d env D requester s = (s', r')"
    then have "quiet {a. pending (heap s ! a) = None} s s'" by (rule updateTargets_pending_quiet)
    then show "quiet UNIV s s'" by (rule quiet_mono) simp
  qed simp
  then have "length (heap s1) = length (heap st)" by (simp add: quiet_def)
  moreover have "length (heap s1) = length (heap s'')" using s1 s1' by auto
  ultimately have bl: "b < length (heap s'')" using rankedD(1)[OF rk b] by simp
  show "once st (setTask b (\<lambda>t. t\<lparr>pending := Some p\<rparr>) s1)"
    by (rule finish_once[OF pn bl pr k s1' s1])
  have "quiet UNIV s1 (setTask b (\<lambda>t. t\<lparr>pending := Some p\<rparr>) s1)"
    by (rule quiet_setPending) simp
  with qL have "quiet UNIV ?s0 (setTask b (\<lambda>t. t\<lparr>pending := Some p\<rparr>) s1)" by (rule quiet_trans)
  with q0 show "quiet UNIV st (setTask b (\<lambda>t. t\<lparr>pending := Some p\<rparr>) s1)" by (rule quiet_trans)
qed


lemma request_once:
  fixes env :: "'w env" and st :: "'w maek"
  assumes IH: "\<forall>(s :: 'w maek) targets requester s' r.
                 ranked rank s \<longrightarrow> updateTargets d env targets requester s = (s', r) \<longrightarrow> once s s'"
    and rk: "ranked rank st"
    and R: "request (updateTargets d env) env rq targets pend st = (st', r)"
  shows "once st st'"
  using rk R
proof (induction targets arbitrary: pend st)
  case Nil
  then show ?case by simp
next
  case (Cons target rest)
  have rk: "ranked rank st" by fact
  have R: "request (updateTargets d env) env rq (target # rest) pend st = (st', r)" by fact
  show ?case
  proof (cases rule: lookupTask_cases[of st target])
    case none
    show ?thesis
    proof (cases "isAbstract target")
      case True
      with R none show ?thesis by simp
    next
      case False
      with R none obtain pend' where "request (updateTargets d env) env rq rest pend' st = (st', r)"
        by simp
      then show ?thesis using Cons.IH[OF rk] by blast
    qed
  next
    case member
    show ?thesis
    proof (cases "memberPending st target")
      case (Some p)
      with R member have "request (updateTargets d env) env rq rest (pend @ [p]) st = (st', r)"
        by simp
      then show ?thesis using Cons.IH[OF rk] by blast
    next
      case None
      let ?s2 = "setMember target (\<lambda>m. m\<lparr>m_pending := Some notCallable\<rparr>)
                   (setMember target (\<lambda>m. m\<lparr>m_src := Some rq\<rparr>) st)"
      have q2: "quiet {} st ?s2" using None by (rule quiet_callMember)
      have o: "once st ?s2" using q2 by (rule quiet_empty_once)
      have rk2: "ranked rank ?s2" using q2 rk by (rule ranked_quiet)
      have "request (updateTargets d env) env rq rest (pend @ [notCallable]) ?s2 = (st', r)"
        using R member None by simp
      then have "once ?s2 st'" using Cons.IH[OF rk2] by blast
      with o show ?thesis by (rule once_trans)
    qed
  next
    case (task b)
    show ?thesis
    proof (cases "taskPending st b")
      case (Some p)
      with R task have "request (updateTargets d env) env rq rest (pend @ [p]) st = (st', r)"
        by simp
      then show ?thesis using Cons.IH[OF rk] by blast
    next
      case None
      let ?s0 = "setTask b (\<lambda>t. t\<lparr>src := Some rq\<rparr>) st"
      obtain s1 p where l: "launch (updateTargets d env) env b ?s0 = (s1, p)"
        by (cases "launch (updateTargets d env) env b ?s0")
      let ?s2 = "setTask b (\<lambda>t. t\<lparr>pending := Some p\<rparr>) s1"
      have o: "once st ?s2" and q: "quiet UNIV st ?s2"
        using launch_once[OF IH rk task(1) taskPending_None[OF None] l] by simp_all
      have rk2: "ranked rank ?s2" using q rk by (rule ranked_quiet)
      have "request (updateTargets d env) env rq rest (pend @ [p]) ?s2 = (st', r)"
        using R task None l by simp
      then have "once ?s2 st'" using Cons.IH[OF rk2] by blast
      with o show ?thesis by (rule once_trans)
    qed
  qed
qed

text \<open>In a ranked registry a call of \<open>updateTargets\<close> leaves each task untouched or settles
  it once.\<close>

lemma updateTargets_once:
  fixes env :: "'w env" and st :: "'w maek"
  shows "ranked rank st \<Longrightarrow> updateTargets d env targets requester st = (st', r) \<Longrightarrow> once st st'"
proof (induction d arbitrary: st targets requester st' r)
  case 0
  then show ?case by simp
next
  case (Suc d)
  have IH: "\<forall>(s :: 'w maek) targets requester s' r.
              ranked rank s \<longrightarrow> updateTargets d env targets requester s = (s', r) \<longrightarrow> once s s'"
    using Suc.IH by blast
  obtain s1 r1 where q: "request (updateTargets d env) env requester targets [] st = (s1, r1)"
    by (cases "request (updateTargets d env) env requester targets [] st")
  have "once st s1" by (rule request_once[OF IH Suc.prems(1) q])
  moreover have "st' = s1"
    using Suc.prems(2) q by (auto simp: updateTargetsBody_def split: sum.splits)
  ultimately show ?case by simp
qed

section \<open>The driver: loading and storing the keys\<close>

lemma clearKeys_induct:
  assumes "P st" and "\<And>s a k. P s \<Longrightarrow> P (setTask a (\<lambda>t. t\<lparr>cachedKey := k\<rparr>) s)"
  shows "P (clearKeys st)"
proof -
  have "P (fold (\<lambda>target s. case taskOf s target of
                         Some a \<Rightarrow> setTask a (\<lambda>t. t\<lparr>cachedKey := None\<rparr>) s
                       | None \<Rightarrow> s) xs s)" if "P s" for xs s
    using that by (induction xs arbitrary: s) (auto intro: assms(2) split: option.splits)
  with assms(1) show ?thesis by (simp add: clearKeys_def)
qed

lemma loadKeys_induct:
  assumes "P st" and "\<And>s a k. P s \<Longrightarrow> P (setTask a (\<lambda>t. t\<lparr>cachedKey := k\<rparr>) s)"
    and "\<And>s name k. P s \<Longrightarrow> P (setMember name (\<lambda>m. m\<lparr>m_cachedKey := k\<rparr>) s)"
  shows "P (loadKeys cache st)"
  unfolding loadKeys_def using assms(1)
proof (induction cache arbitrary: st)
  case Nil
  then show ?case by simp
next
  case (Cons x cache)
  obtain target key where x: "x = (target, key)" by (cases x)
  have "P (case lookupTask st target of
             Some (TaskAt a) \<Rightarrow> setTask a (\<lambda>t. t\<lparr>cachedKey := Some key\<rparr>) st
           | Some (Member name) \<Rightarrow> setMember name (\<lambda>m. m\<lparr>m_cachedKey := Some key\<rparr>) st
           | None \<Rightarrow> st)"
    using Cons.prems by (auto intro: assms(2,3) split: option.splits found.splits)
  then show ?case using Cons.IH x by simp
qed

lemma preload_induct:
  assumes "P st" and "\<And>s a k. P s \<Longrightarrow> P (setTask a (\<lambda>t. t\<lparr>cachedKey := k\<rparr>) s)"
    and "\<And>s name k. P s \<Longrightarrow> P (setMember name (\<lambda>m. m\<lparr>m_cachedKey := k\<rparr>) s)"
  shows "P (preload st)"
proof -
  have "P (clearKeys st)" using assms(1,2) by (rule clearKeys_induct)
  then show ?thesis
    unfolding preload_def Let_def
    by (auto split: option.splits intro: loadKeys_induct assms(2,3))
qed

text \<open>Loading touches the cached keys and nothing else.\<close>

lemma preload_same:
  "tasks (preload st) = tasks st \<and> trace (preload st) = trace st \<and>
   cacheFile (preload st) = cacheFile st \<and>
   length (heap (preload st)) = length (heap st) \<and>
   (\<forall>a. run (heap (preload st) ! a) = run (heap st ! a) \<and>
        keyFn (heap (preload st) ! a) = keyFn (heap st ! a) \<and>
        label (heap (preload st) ! a) = label (heap st ! a) \<and>
        pending (heap (preload st) ! a) = pending (heap st ! a) \<and>
        failed (heap (preload st) ! a) = failed (heap st ! a))"
  by (rule preload_induct) (auto simp: nth_setTask)

lemma preload_fields [simp]:
  "tasks (preload st) = tasks st" "trace (preload st) = trace st"
  "cacheFile (preload st) = cacheFile st"
  "length (heap (preload st)) = length (heap st)"
  "pending (heap (preload st) ! a) = pending (heap st ! a)"
  "failed (heap (preload st) ! a) = failed (heap st ! a)"
  "keyFn (heap (preload st) ! a) = keyFn (heap st ! a)"
  "run (heap (preload st) ! a) = run (heap st ! a)"
  using preload_same[of st] by simp_all

lemma preload_counts [simp]:
  "runCount (preload st) a = runCount st a" "keyCount (preload st) a = keyCount st a"
  by (simp_all add: runCount_def keyCount_def)

lemma taskOf_preload [simp]: "taskOf (preload st) t = taskOf st t"
  by (simp add: taskOf_def)

lemma ranked_preload: "ranked rank st \<Longrightarrow> ranked rank (preload st)"
  by (simp add: ranked_def runDeps_def keyDeps_def)

text \<open>What \<open>update\<close> does to tasks and trace is what its call of \<open>updateTargets\<close> does.\<close>

lemma update_cases:
  obtains st3 r3 where "updateTargets depth env targets ''user'' (preload st) = (st3, r3)"
    and "heap (fst (update depth env targets st)) = heap st3"
    and "trace (fst (update depth env targets st)) = trace st3"
    and "tasks (fst (update depth env targets st)) = tasks st3"
    and "cacheFile (fst (update depth env targets st)) =
           (case r3 of Inl (OtherError m) \<Rightarrow> cacheFile st3 | _ \<Rightarrow> Some (storedKeys st3))"
    and "snd (update depth env targets st) = (case r3 of Inl (OtherError m) \<Rightarrow> Inl (OtherError m) | _ \<Rightarrow> Inr ())"
proof (cases "updateTargets depth env targets ''user'' (preload st)")
  case (Pair st3 r3)
  show ?thesis
    by (rule that[OF Pair])
       (auto simp: update_def Pair Let_def split: sum.splits error.splits)
qed




section \<open>A task that gets a promise has been started\<close>



lemma began_refl [simp]: "began st st"
  by (auto simp: began_def)














section \<open>At most one run of a task\<close>

lemma update_counts:
  "runCount (fst (update depth env targets st)) a =
     runCount (fst (updateTargets depth env targets ''user'' (preload st))) a"
  "keyCount (fst (update depth env targets st)) a =
     keyCount (fst (updateTargets depth env targets ''user'' (preload st))) a"
  "heap (fst (update depth env targets st)) = heap (fst (updateTargets depth env targets ''user'' (preload st)))"
  "tasks (fst (update depth env targets st)) = tasks st"
proof -
  obtain st3 r3 where u: "updateTargets depth env targets ''user'' (preload st) = (st3, r3)"
    and h: "heap (fst (update depth env targets st)) = heap st3"
    and t: "trace (fst (update depth env targets st)) = trace st3"
    and k: "tasks (fst (update depth env targets st)) = tasks st3"
    by (rule update_cases)
  have "quiet {a. pending (heap (preload st) ! a) = None} (preload st) st3"
    using u by (rule updateTargets_pending_quiet)
  then have "tasks st3 = tasks st" by (simp add: quiet_def)
  with u h t k show
    "runCount (fst (update depth env targets st)) a =
       runCount (fst (updateTargets depth env targets ''user'' (preload st))) a"
    "keyCount (fst (update depth env targets st)) a =
       keyCount (fst (updateTargets depth env targets ''user'' (preload st))) a"
    "heap (fst (update depth env targets st)) = heap (fst (updateTargets depth env targets ''user'' (preload st)))"
    "tasks (fst (update depth env targets st)) = tasks st"
    by (simp_all add: runCount_def keyCount_def)
qed

lemma update_once:
  assumes "ranked rank st"
  shows "once (preload st) (fst (updateTargets depth env targets ''user'' (preload st)))"
  by (rule updateTargets_once[OF ranked_preload[OF assms]]) (rule prod.collapse[symmetric])

lemma update_pending_untouched:
  assumes "pending (heap st ! a) \<noteq> None"
  shows "untouched (preload st) (fst (updateTargets depth env targets ''user'' (preload st))) a"
proof -
  have "quiet {a. pending (heap (preload st) ! a) = None} (preload st)
          (fst (updateTargets depth env targets ''user'' (preload st)))"
    by (rule updateTargets_pending_quiet) (rule prod.collapse[symmetric])
  moreover have "a \<notin> {a. pending (heap (preload st) ! a) = None}" using assms by simp
  ultimately show ?thesis by (rule quiet_untouched)
qed







text \<open>A request for \<^verbatim>\<open>__proto__\<close> gives \<^verbatim>\<open>Object.prototype\<close> a promise, which every task
  inherits: no task is started after it.\<close>

lemma proto_request_blocks:
  "m_pending (prototype (fst (update 5 demoEnv [''__proto__'', ''out''] chainMaek)))
     = Some notCallable"
  "pending (heap (fst (update 5 demoEnv [''__proto__'', ''out''] chainMaek)) ! 1) = None"
  "runCount (fst (update 5 demoEnv [''__proto__'', ''out''] chainMaek)) 1 = 0"
  by code_simp+


section \<open>A stored promise stays\<close>

lemma atMostOnce_update:
  assumes rk: "ranked rank st" and am: "atMostOnce st"
  shows "atMostOnce (fst (update depth env targets st))"
  unfolding atMostOnce_def
proof
  fix a
  let ?st3 = "fst (updateTargets depth env targets ''user'' (preload st))"
  have "untouched (preload st) ?st3 a \<or> settledOnce (preload st) ?st3 a"
    using update_once[OF rk] by (simp add: once_def)
  then have "runCount ?st3 a \<le> 1 \<and> (pending (heap ?st3 ! a) = None \<longrightarrow> runCount ?st3 a = 0)"
    using am by (auto simp: untouched_def settledOnce_def atMostOnce_def)
  then show "runCount (fst (update depth env targets st)) a \<le> 1 \<and>
       (pending (heap (fst (update depth env targets st)) ! a) = None \<longrightarrow>
        runCount (fst (update depth env targets st)) a = 0)"
    by (simp add: update_counts)
qed

text \<open>
  C10, as stated, fails in its middle part: of the two rules that ask for each other's
  target, the first is run twice by one call of \<open>update\<close>, before any promise is stored.
\<close>

theorem C10_mutual_dependency_counterexample:
  "runCount (fst (update 4 demoEnv [''x''] loopMaek)) 0 = 2"
  by code_simp

text \<open>
  C10, amended. A promise stored in \<^verbatim>\<open>pending\<close> is never cleared: a later call of
  \<open>update\<close> on the same engine leaves it as it is and calls neither the \<^verbatim>\<open>run\<close> nor the
  key function of that task, whatever has happened to the files; and in a registry whose
  dependency graph has no cycle no task is run twice, in however many calls of \<open>update\<close>.
\<close>

theorem C10_pending_never_cleared:
  "(pending (heap st ! a) \<noteq> None \<longrightarrow>
      pending (heap (fst (update depth env targets st)) ! a) = pending (heap st ! a) \<and>
      runCount (fst (update depth env targets st)) a = runCount st a \<and>
      keyCount (fst (update depth env targets st)) a = keyCount st a) \<and>
   (ranked rank st \<and> atMostOnce st \<longrightarrow> atMostOnce (fst (update depth env targets st)))"
proof (intro conjI impI)
  assume "pending (heap st ! a) \<noteq> None"
  then have u: "untouched (preload st) (fst (updateTargets depth env targets ''user'' (preload st))) a"
    by (rule update_pending_untouched)
  from u show "pending (heap (fst (update depth env targets st)) ! a) = pending (heap st ! a)"
    by (simp add: update_counts untouched_def)
  from u show "runCount (fst (update depth env targets st)) a = runCount st a"
    by (simp add: update_counts untouched_def)
  from u show "keyCount (fst (update depth env targets st)) a = keyCount st a"
    by (simp add: update_counts untouched_def)
next
  assume "ranked rank st \<and> atMostOnce st"
  then show "atMostOnce (fst (update depth env targets st))"
    using atMostOnce_update by blast
qed

lemma chainTouched_facts:
  "pending (heap chainTouched ! 1) = Some Resolved" "runCount chainTouched 1 = 1"
  "map_of (world chainTouched) ''in'' = Some ''changed''"
  by code_simp+

theorem C10_pending_never_cleared_witness:
  "pending (heap chainTouched ! 1) \<noteq> None \<and>
   pending (heap (fst (update 5 demoEnv [''out''] chainTouched)) ! 1) = Some Resolved \<and>
   runCount (fst (update 5 demoEnv [''out''] chainTouched)) 1 = 1 \<and>
   keyCount (fst (update 5 demoEnv [''out''] chainTouched)) 1 = keyCount chainTouched 1"
  using C10_pending_never_cleared[of chainTouched 1 5 demoEnv "[''out'']" "\<lambda>a. a"]
    chainTouched_facts
  by simp

section \<open>What the cache file holds after an update\<close>


lemma clearKeys_fields [simp]:
  "tasks (clearKeys st) = tasks st" "cacheFile (clearKeys st) = cacheFile st"
  "length (heap (clearKeys st)) = length (heap st)"
  by (rule clearKeys_induct; simp)+





text \<open>Without an entry named \<^verbatim>\<open>__proto__\<close> in the cache file, loading writes nothing to
  \<^verbatim>\<open>Object.prototype\<close>.\<close>

lemma clearKeys_members [simp]: "members (clearKeys st) = members st"
  by (rule clearKeys_induct) simp_all







text \<open>A cache file with an entry named \<^verbatim>\<open>__proto__\<close> gives \<^verbatim>\<open>Object.prototype\<close> a
  cached key, which every task without a key of its own inherits and \<open>update\<close> writes for
  each of its targets.\<close>

lemma proto_entry_inherited:
  "cachedKey (heap (fst (update 5 demoEnv [''out'']
                           (failMaek\<lparr>cacheFile := Some [(''__proto__'', JArr [JStr ''x''])]\<rparr>))) ! 0)
     = None"
  "cacheFile (fst (update 5 demoEnv [''out'']
                     (failMaek\<lparr>cacheFile := Some [(''__proto__'', JArr [JStr ''x''])]\<rparr>)))
     = Some [(''out'', JArr [JStr ''x''])]"
  by code_simp+




section \<open>Rules for abstract targets\<close>

lemma map_of_assign: "map_of (assign kvs k v) = (map_of kvs)(k \<mapsto> v)"
  by (induction kvs) (auto simp: fun_eq_iff)

lemma map_of_fold_assign:
  "map_of (fold (\<lambda>target reg. assign reg target v) targets reg) t =
     (if t \<in> set targets then Some v else map_of reg t)"
  by (induction targets arbitrary: reg) (auto simp: map_of_assign)

lemma taskOf_install:
  "taskOf (install task targets st) t =
     (if t \<in> set targets then Some (length (heap st)) else taskOf st t)"
  by (simp add: install_def taskOf_def map_of_fold_assign)


lemma RULE_installs:
  "t \<in> set targets \<Longrightarrow> taskOf (RULE targets prerequisites recipe st) t = Some (length (heap st))"
  by (simp add: RULE_def Let_def taskOf_install)


lemma map_fst_assign:
  "map fst (assign kvs k v) = (if k \<in> fst ` set kvs then map fst kvs else map fst kvs @ [k])"
  by (induction kvs) (auto split: if_splits)

lemma distinct_assign: "distinct (map fst kvs) \<Longrightarrow> distinct (map fst (assign kvs k v))"
  by (simp add: map_fst_assign)

lemma set_assign: "set (assign kvs k v) \<subseteq> insert (k, v) (set kvs)"
  by (induction kvs) (auto split: if_splits)

lemma wellFormed_install:
  assumes wf: "wellFormed st" and np: "''__proto__'' \<notin> set targets"
  shows "wellFormed (install task targets st)"
proof -
  let ?n = "length (heap st)"
  have "distinct (map fst (fold (\<lambda>target reg. assign reg target ?n) targets reg)) \<and>
        (\<forall>(t, a) \<in> set (fold (\<lambda>target reg. assign reg target ?n) targets reg). a < Suc ?n) \<and>
        ''__proto__'' \<notin> fst ` set (fold (\<lambda>target reg. assign reg target ?n) targets reg)"
    if "distinct (map fst reg)" "\<forall>(t, a) \<in> set reg. a < Suc ?n" "''__proto__'' \<notin> fst ` set reg"
      "''__proto__'' \<notin> set targets" for reg
    using that
  proof (induction targets arbitrary: reg)
    case Nil
    then show ?case by simp
  next
    case (Cons x xs)
    have "distinct (map fst (assign reg x ?n))" using Cons.prems(1) by (rule distinct_assign)
    moreover have "\<forall>(t, a) \<in> set (assign reg x ?n). a < Suc ?n"
      using Cons.prems(2) set_assign[of reg x ?n] by auto
    moreover have "''__proto__'' \<notin> fst ` set (assign reg x ?n)"
      using Cons.prems(3,4) set_assign[of reg x ?n] by auto
    moreover have "''__proto__'' \<notin> set xs" using Cons.prems(4) by simp
    ultimately show ?case using Cons.IH by simp
  qed
  moreover have "distinct (map fst (tasks st))" "\<forall>(t, a) \<in> set (tasks st). a < Suc ?n"
    "''__proto__'' \<notin> fst ` set (tasks st)"
    using wf by (auto simp: wellFormed_def list_all_iff)
  ultimately show ?thesis
    using np by (simp add: wellFormed_def install_def list_all_iff)
qed

lemma wellFormed_newMaek: "wellFormed (newMaek env w)"
  by (simp add: wellFormed_def newMaek_def)

lemma wellFormed_RULE:
  "wellFormed st \<Longrightarrow> ''__proto__'' \<notin> set targets \<Longrightarrow>
   wellFormed (RULE targets prerequisites recipe st)"
  by (simp add: RULE_def Let_def wellFormed_install)








section \<open>The job pool\<close>









section \<open>Cache hit and cache miss\<close>









lemma chainEdited_after:
  "cachedKey (heap (fst (launch (updateTargets 4 demoEnv) demoEnv 0 chainEdited)) ! 0)
     = Some (JArr [JArr [JStr ''cp'', JStr ''in'', JStr ''mid''], JStr ''mid:changed'', JStr ''in:changed''])"
  "runCount (fst (launch (updateTargets 4 demoEnv) demoEnv 0 chainEdited)) 0 = 1"
  by code_simp+


section \<open>The two loops of \<open>updateTargets\<close>\<close>











end
